theory Spec2Isabelle
  imports Main
begin

section \<open>Style installer: the DOM fragment and the style registry\<close>

text \<open>
  A node under a style root, with the nodes below it. JavaScript compares nodes by
  identity; the model gives every node an identity number \<open>nid\<close>. Text and comment
  nodes are nodes too, with a tag other than \<open>style\<close> and no attributes.
\<close>

datatype element =
  Element (nid: nat) (tagName: string) (attrs: "(string \<times> string) list")
    (textContent: string) (children: "element list")

text \<open>A node and what is below it, in document order; \<open>descendants\<close> are all the nodes
  below a root with the given children.\<close>

fun subtree :: "element \<Rightarrow> element list" where
  "subtree (Element n t a x cs) = Element n t a x cs # concat (map subtree cs)"

definition descendants :: "element list \<Rightarrow> element list" where
  "descendants cs = concat (map subtree cs)"

text \<open>Values thrown by the code: a failed assertion of the logging facility, the
  \<open>SyntaxError\<close> of \<open>querySelector\<close> for a selector text it cannot parse, or an error
  thrown by a collaborator of the host.\<close>

datatype exn = AssertionError string | SyntaxError string | HostError string

text \<open>
  The style root (\<open>cssRoot\<close>): its child nodes in document order, the expando properties
  \<open>__AMP_CSS_SM\<close> (absent until the first install) and \<open>__AMP_CSS_TR\<close>, and the
  identity that \<open>createElement\<close> will hand out next. \<open>other_selectors\<close> is what the
  selector engine of the host makes of a selector text outside the two forms modelled
  below: it throws, or it gives the test that the text stands for.
\<close>

record css_root =
  childNodes :: "element list"
  style_map :: "(string \<rightharpoonup> element) option"
  transformer :: "(string \<Rightarrow> string) option"
  next_nid :: nat
  other_selectors :: "string \<Rightarrow> exn + (element \<Rightarrow> bool)"

definition truthy :: "string option \<Rightarrow> bool" where
  "truthy s = (s \<noteq> None \<and> s \<noteq> Some [])"

definition str_of :: "string option \<Rightarrow> string" where
  "str_of s = (case s of None \<Rightarrow> [] | Some v \<Rightarrow> v)"

text \<open>The argument defaults of the entry points: \<open>opt_ext || null\<close>.\<close>

definition or_null :: "string option \<Rightarrow> string option" where
  "or_null opt_ext = (if truthy opt_ext then opt_ext else None)"

definition setAttribute :: "element \<Rightarrow> string \<Rightarrow> string \<Rightarrow> element" where
  "setAttribute e name v =
     Element (nid e) (tagName e) ((name, v) # filter (\<lambda>p. fst p \<noteq> name) (attrs e))
       (textContent e) (children e)"

subsection \<open>The selector \<open>style[<key>]\<close>\<close>

text \<open>
  \<open>getExistingStyleElement\<close> splices the key into the selector text \<open>style[<key>]\<close>
  (line 192). Two forms of that text are modelled: \<open>style[name]\<close>, which asks for the
  attribute to be present, and \<open>style[name=value]\<close>, which asks for the attribute to have
  that value, where \<open>name\<close> and \<open>value\<close> are identifiers written in lower case without
  escapes: an optional hyphen, a lower-case letter or underscore, then lower-case
  letters, digits, hyphens and underscores. Such text is valid and means what it says.
  Any other text (a value that is not such an identifier, like \<open>amp-foo-0.1\<close>; a quoted
  value; a flag after the value; more selector syntax) is left to \<open>other_selectors\<close>.
\<close>

definition ident_start :: "char \<Rightarrow> bool" where
  "ident_start c = (c \<in> set ''abcdefghijklmnopqrstuvwxyz_'')"

definition ident_char :: "char \<Rightarrow> bool" where
  "ident_char c = (ident_start c \<or> c \<in> set ''0123456789-'')"

definition css_ident :: "string \<Rightarrow> bool" where
  "css_ident s =
     (case s of
        [] \<Rightarrow> False
      | c # cs \<Rightarrow>
          (if c = CHR ''-'' then
             (case cs of [] \<Rightarrow> False | d # ds \<Rightarrow> ident_start d \<and> list_all ident_char ds)
           else ident_start c \<and> list_all ident_char cs))"

datatype selector = HasAttribute string | AttributeEquals string string

definition parse_key :: "string \<Rightarrow> selector option" where
  "parse_key key =
     (let name = takeWhile (\<lambda>c. c \<noteq> CHR ''='') key
      in case dropWhile (\<lambda>c. c \<noteq> CHR ''='') key of
           [] \<Rightarrow> if css_ident name then Some (HasAttribute name) else None
         | c # v \<Rightarrow> if css_ident name \<and> css_ident v then Some (AttributeEquals name v) else None)"

fun selects :: "selector \<Rightarrow> element \<Rightarrow> bool" where
  "selects (HasAttribute name) e = (tagName e = ''style'' \<and> map_of (attrs e) name \<noteq> None)"
| "selects (AttributeEquals name v) e = (tagName e = ''style'' \<and> map_of (attrs e) name = Some v)"

text \<open>
  \<open>cssRoot.querySelector('style[<key>]')\<close>: the first match among all the nodes below the
  root, in document order, or the \<open>SyntaxError\<close> of the engine.
\<close>

definition querySelector :: "css_root \<Rightarrow> string \<Rightarrow> exn + element option" where
  "querySelector cssRoot key =
     (case parse_key key of
        Some sel \<Rightarrow> Inr (find (selects sel) (descendants (childNodes cssRoot)))
      | None \<Rightarrow>
          (case other_selectors cssRoot (''style['' @ key @ '']'') of
             Inl x \<Rightarrow> Inl x
           | Inr test \<Rightarrow> Inr (find test (descendants (childNodes cssRoot)))))"

definition lastChild :: "css_root \<Rightarrow> element option" where
  "lastChild cssRoot = (case childNodes cssRoot of [] \<Rightarrow> None | c # cs \<Rightarrow> Some (last (c # cs)))"

text \<open>
  Modelled from the spec: \<open>insertAfterOrAtStart(root, newNode, afterNode|null)\<close> of the DOM
  helpers, which are not among the sources, "inserts newNode immediately after afterNode,
  or as the first child if afterNode is null". What the helper does with a reference
  node that is deeper below the root cannot be read from the sources: the model then
  puts the new node at the end of the children. The theorems on positions take the
  reference node to be a child, and the others use of that case only that the new node
  is then below the root.
\<close>

fun insert_after :: "element \<Rightarrow> element \<Rightarrow> element list \<Rightarrow> element list" where
  "insert_after new a [] = [new]"
| "insert_after new a (c # cs) =
     (if nid c = nid a then c # new # cs else c # insert_after new a cs)"

definition insertAfterOrAtStart :: "element list \<Rightarrow> element \<Rightarrow> element option \<Rightarrow> element list" where
  "insertAfterOrAtStart nodes new after =
     (case after of None \<Rightarrow> new # nodes | Some a \<Rightarrow> insert_after new a nodes)"

subsection \<open>\<open>getExistingStyleElement\<close> and \<open>insertStyleElement\<close>\<close>

definition the_style_map :: "css_root \<Rightarrow> (string \<rightharpoonup> element)" where
  "the_style_map cssRoot = (case style_map cssRoot of None \<Rightarrow> Map.empty | Some m \<Rightarrow> m)"

text \<open>\<open>if (!styleMap) styleMap = cssRoot[STYLE_MAP_PROP] = map()\<close>\<close>

definition ensure_style_map :: "css_root \<Rightarrow> css_root" where
  "ensure_style_map cssRoot =
     (case style_map cssRoot of
        None \<Rightarrow> cssRoot\<lparr>style_map := Some Map.empty\<rparr>
      | Some m \<Rightarrow> cssRoot)"

definition record_style :: "css_root \<Rightarrow> string \<Rightarrow> element \<Rightarrow> css_root" where
  "record_style cssRoot key e = cssRoot\<lparr>style_map := Some ((the_style_map cssRoot)(key \<mapsto> e))\<rparr>"

text \<open>The result is the node found, null, or the value that \<open>querySelector\<close> throws.\<close>

definition getExistingStyleElement :: "css_root \<Rightarrow> string \<Rightarrow> (exn + element option) \<times> css_root" where
  "getExistingStyleElement cssRoot key =
     (case the_style_map cssRoot key of
        Some e \<Rightarrow> (Inr (Some e), cssRoot)
      | None \<Rightarrow>
          (case querySelector cssRoot key of
             Inl x \<Rightarrow> (Inl x, cssRoot)
           | Inr (Some e) \<Rightarrow> (Inr (Some e), record_style cssRoot key e)
           | Inr None \<Rightarrow> (Inr None, cssRoot)))"

definition isExtCss_of :: "bool \<Rightarrow> string option \<Rightarrow> bool" where
  "isExtCss_of isRuntimeCss ext =
     (\<not> isRuntimeCss \<and> truthy ext \<and> ext \<noteq> Some ''amp-custom'' \<and> ext \<noteq> Some ''amp-keyframes'')"

definition style_key :: "bool \<Rightarrow> string option \<Rightarrow> string option" where
  "style_key isRuntimeCss ext =
     (if isRuntimeCss then Some ''amp-runtime''
      else if isExtCss_of isRuntimeCss ext then Some (''amp-extension='' @ str_of ext)
      else None)"

text \<open>Lines 172 to 176: insert the new node, then \<open>if (key) styleMap[key] = style\<close>.\<close>

definition insert_and_record ::
  "css_root \<Rightarrow> element \<Rightarrow> element option \<Rightarrow> string option \<Rightarrow> (exn + element) \<times> css_root" where
  "insert_and_record cssRoot style afterElement key =
     (let r = cssRoot\<lparr>childNodes := insertAfterOrAtStart (childNodes cssRoot) style afterElement\<rparr>
      in (Inr style, case key of None \<Rightarrow> r | Some k \<Rightarrow> record_style r k style))"

text \<open>
  The result is the returned node or the thrown value, with the root as the call leaves
  it: what was written to the root before a throw stays written.
\<close>

definition insertStyleElement ::
  "css_root \<Rightarrow> string \<Rightarrow> bool \<Rightarrow> string option \<Rightarrow> (exn + element) \<times> css_root" where
  "insertStyleElement cssRoot cssText isRuntimeCss ext =
     (let r0 = ensure_style_map cssRoot;
          isExtCss = isExtCss_of isRuntimeCss ext;
          key = style_key isRuntimeCss ext
      in case (case key of None \<Rightarrow> (Inr None, r0) | Some k \<Rightarrow> getExistingStyleElement r0 k) of
           (Inl x, r1) \<Rightarrow> (Inl x, r1)
         | (Inr (Some e), r1) \<Rightarrow> (Inr e, r1)
         | (Inr None, r1) \<Rightarrow>
             (let style = Element (next_nid r1) ''style'' [] cssText [];
                  r2 = r1\<lparr>next_nid := Suc (next_nid r1)\<rparr>
              in if isRuntimeCss then
                   insert_and_record r2 (setAttribute style ''amp-runtime'' []) None key
                 else if isExtCss then
                   (case getExistingStyleElement r2 ''amp-runtime'' of
                      (Inl x, r3) \<Rightarrow> (Inl x, r3)
                    | (Inr None, r3) \<Rightarrow> (Inl (AssertionError ''Element expected''), r3)
                    | (Inr (Some a), r3) \<Rightarrow>
                        insert_and_record r3 (setAttribute style ''amp-extension'' (str_of ext)) (Some a) key)
                 else
                   insert_and_record r2
                     (if truthy ext then setAttribute style (str_of ext) [] else style)
                     (lastChild r2) key))"

definition installCssTransformer :: "css_root \<Rightarrow> (string \<Rightarrow> string) \<Rightarrow> css_root" where
  "installCssTransformer cssRoot f = cssRoot\<lparr>transformer := Some f\<rparr>"

definition maybeTransform :: "css_root \<Rightarrow> string \<Rightarrow> string" where
  "maybeTransform cssRoot cssText =
     (case transformer cssRoot of Some f \<Rightarrow> f cssText | None \<Rightarrow> cssText)"

subsection \<open>Readiness polling and the two entry points\<close>

text \<open>An entry of \<open>styleSheets\<close>: its \<open>ownerNode\<close> (by identity), null for an imported sheet.\<close>

record styleSheet =
  ownerNode :: "nat option"

fun styleLoaded :: "styleSheet list \<Rightarrow> element \<Rightarrow> bool" where
  "styleLoaded [] style = False"
| "styleLoaded (sheet # sheets) style =
     (if ownerNode sheet = Some (nid style) then True else styleLoaded sheets style)"

text \<open>
  What the callback and the timer of one install call have done so far: the arguments of
  the invocations of \<open>cb\<close>, in order, and the live \<open>setInterval\<close> handle (its delay and
  the style node its handler polls), \<open>None\<close> when no timer was created or after
  \<open>clearInterval\<close>.
\<close>

record poller =
  cb_calls :: "element list"
  interval :: "(nat \<times> element) option"

text \<open>Lines 56 to 74 (and 103 to 120): the synchronous check, else \<open>setInterval(..., 4)\<close>.\<close>

definition notify_when_loaded :: "bool \<Rightarrow> styleSheet list \<Rightarrow> element \<Rightarrow> poller" where
  "notify_when_loaded cb sheets style =
     (if cb then
        (if styleLoaded sheets style then \<lparr>cb_calls = [style], interval = None\<rparr>
         else \<lparr>cb_calls = [], interval = Some (4, style)\<rparr>)
      else \<lparr>cb_calls = [], interval = None\<rparr>)"

text \<open>The handler of the interval, run by the host with the style sheets of that moment.\<close>

definition interval_tick :: "styleSheet list \<Rightarrow> poller \<Rightarrow> poller" where
  "interval_tick sheets p =
     (case interval p of
        None \<Rightarrow> p
      | Some (d, style) \<Rightarrow>
          (if styleLoaded sheets style
           then \<lparr>cb_calls = cb_calls p @ [style], interval = None\<rparr>
           else p))"

text \<open>
  The host's timer: a live interval created at time \<open>now\<close> with delay \<open>d\<close> fires at
  \<open>now + d\<close>, \<open>now + 2 * d\<close>, ...; a cleared one never fires again. \<open>sheets_at t\<close> is
  the style sheet list of the root at time \<open>t\<close>; \<open>run_interval\<close> follows the timer for
  \<open>n\<close> firings.
\<close>

fun run_interval :: "(nat \<Rightarrow> styleSheet list) \<Rightarrow> nat \<Rightarrow> nat \<Rightarrow> poller \<Rightarrow> poller" where
  "run_interval sheets_at now 0 p = p"
| "run_interval sheets_at now (Suc n) p =
     (case interval p of
        None \<Rightarrow> p
      | Some (d, style) \<Rightarrow>
          run_interval sheets_at (now + d) n (interval_tick (sheets_at (now + d)) p))"

text \<open>
  An ampdoc with its head node and a legacy document with its head (null before the head
  is parsed). The style sheets are \<open>getRootNode().styleSheets\<close> and \<open>doc.styleSheets\<close>
  as the host lists them when the call makes its synchronous check.
\<close>

record ampdoc =
  headNode :: css_root
  rootSheets :: "styleSheet list"

record document =
  doc_head :: "css_root option"
  doc_styleSheets :: "styleSheet list"

definition or_false :: "bool option \<Rightarrow> bool" where
  "or_false b = (case b of None \<Rightarrow> False | Some v \<Rightarrow> v)"

definition no_poller :: poller where
  "no_poller = \<lparr>cb_calls = [], interval = None\<rparr>"

definition installStylesForDoc ::
  "ampdoc \<Rightarrow> string \<Rightarrow> bool \<Rightarrow> bool option \<Rightarrow> string option \<Rightarrow> (exn + element) \<times> ampdoc \<times> poller" where
  "installStylesForDoc ad cssText cb opt_isRuntimeCss opt_ext =
     (let cssRoot = headNode ad
      in case insertStyleElement cssRoot (maybeTransform cssRoot cssText)
                (or_false opt_isRuntimeCss) (or_null opt_ext) of
           (Inl e, r) \<Rightarrow> (Inl e, ad\<lparr>headNode := r\<rparr>, no_poller)
         | (Inr style, r) \<Rightarrow>
             (Inr style, ad\<lparr>headNode := r\<rparr>, notify_when_loaded cb (rootSheets ad) style))"

definition installStylesLegacy ::
  "document \<Rightarrow> string \<Rightarrow> bool \<Rightarrow> bool option \<Rightarrow> string option \<Rightarrow> (exn + element) \<times> document \<times> poller" where
  "installStylesLegacy doc cssText cb opt_isRuntimeCss opt_ext =
     (case doc_head doc of
        None \<Rightarrow> (Inl (AssertionError ''Element expected''), doc, no_poller)
      | Some cssRoot \<Rightarrow>
          (case insertStyleElement cssRoot cssText (or_false opt_isRuntimeCss) (or_null opt_ext) of
             (Inl e, r) \<Rightarrow> (Inl e, doc\<lparr>doc_head := Some r\<rparr>, no_poller)
           | (Inr style, r) \<Rightarrow>
               (Inr style, doc\<lparr>doc_head := Some r\<rparr>,
                notify_when_loaded cb (doc_styleSheets doc) style)))"

text \<open>A sequence of calls on one root, each seeing the root as the call before left it.\<close>

fun install_all ::
  "css_root \<Rightarrow> (string \<times> bool \<times> string option) list \<Rightarrow> (exn + element) list \<times> css_root" where
  "install_all cssRoot [] = ([], cssRoot)"
| "install_all cssRoot ((cssText, isRuntimeCss, ext) # calls) =
     (case insertStyleElement cssRoot cssText isRuntimeCss ext of
        (res, r) \<Rightarrow> (case install_all r calls of (ress, r') \<Rightarrow> (res # ress, r')))"

subsection \<open>Well-formed roots and what the claims count\<close>

text \<open>
  Node identity in the model: a node occurs once among the children, and \<open>createElement\<close>
  never hands out the identity of a node that is already there.
\<close>

definition dom_ok :: "css_root \<Rightarrow> bool" where
  "dom_ok r = (distinct (map nid (childNodes r)) \<and> list_all (\<lambda>e. nid e < next_nid r) (childNodes r))"

text \<open>A key of the two modelled forms, and the nodes that carry its marker.\<close>

definition plain_key :: "string \<Rightarrow> bool" where
  "plain_key key = (parse_key key \<noteq> None)"

definition selector_matches :: "string \<Rightarrow> element \<Rightarrow> bool" where
  "selector_matches key e = (case parse_key key of Some sel \<Rightarrow> selects sel e | None \<Rightarrow> False)"

text \<open>
  The registry only holds nodes below the root, and under a key of the modelled forms a
  node that carries the marker of the key. Every root that no install has touched yet
  satisfies it, and every install keeps it.
\<close>

definition registry_ok :: "css_root \<Rightarrow> bool" where
  "registry_ok r =
     (\<forall>k e. the_style_map r k = Some e \<longrightarrow>
        e \<in> set (descendants (childNodes r)) \<and> (plain_key k \<longrightarrow> selector_matches k e))"

text \<open>A key is known when \<open>getExistingStyleElement\<close> finds a node for it: in the registry
  or below the root.\<close>

definition known :: "css_root \<Rightarrow> string \<Rightarrow> bool" where
  "known r key =
     (case fst (getExistingStyleElement r key) of Inr (Some e) \<Rightarrow> True | Inr None \<Rightarrow> False | Inl x \<Rightarrow> False)"

definition marked_count :: "css_root \<Rightarrow> string \<Rightarrow> nat" where
  "marked_count r key = length (filter (selector_matches key) (descendants (childNodes r)))"

definition is_runtime :: "element \<Rightarrow> bool" where
  "is_runtime e = selector_matches ''amp-runtime'' e"

definition is_extension :: "element \<Rightarrow> bool" where
  "is_extension e = (tagName e = ''style'' \<and> map_of (attrs e) ''amp-extension'' \<noteq> None)"

text \<open>Every runtime style node below the root is a child of the root.\<close>

definition runtime_on_top :: "css_root \<Rightarrow> bool" where
  "runtime_on_top r = list_all (\<lambda>e. is_runtime e \<longrightarrow> e \<in> set (childNodes r)) (descendants (childNodes r))"

text \<open>
  The order among the children, for the nodes made since the identity counter stood at
  \<open>n0\<close>: such a runtime style node is the first child, and such an extension style node
  comes after the runtime style node of the registry.
\<close>

definition created_order :: "nat \<Rightarrow> css_root \<Rightarrow> bool" where
  "created_order n0 r =
     ((\<forall>c\<in>set (childNodes r). is_runtime c \<and> n0 \<le> nid c \<longrightarrow>
         (\<exists>rest. childNodes r = c # rest)) \<and>
      (\<forall>e\<in>set (childNodes r). is_extension e \<and> n0 \<le> nid e \<longrightarrow>
         (\<exists>a before after. the_style_map r ''amp-runtime'' = Some a \<and>
            childNodes r = before @ a # after \<and> e \<in> set after)))"

text \<open>What a sequence of installs keeps of the root, from the root \<open>r0\<close> it started on.\<close>

definition kept :: "css_root \<Rightarrow> css_root \<Rightarrow> bool" where
  "kept r0 r =
     (registry_ok r \<and> dom_ok r \<and> runtime_on_top r \<and> next_nid r0 \<le> next_nid r \<and>
      created_order (next_nid r0) r \<and>
      (\<forall>e\<in>set (childNodes r). nid e < next_nid r0 \<longrightarrow> e \<in> set (childNodes r0)))"

text \<open>
  The readiness of the spec: the style sheet list has an entry whose owner node is the
  style node.
\<close>

definition listed :: "styleSheet list \<Rightarrow> element \<Rightarrow> bool" where
  "listed sheets style = (\<exists>sheet\<in>set sheets. ownerNode sheet = Some (nid style))"

subsection \<open>Concrete roots\<close>

text \<open>A selector engine that rejects every text outside the modelled forms. The examples
  hand it one such text, \<open>style[amp-extension=amp-foo-0.1]\<close>, which no engine accepts.\<close>

definition reject_selectors :: "string \<Rightarrow> exn + (element \<Rightarrow> bool)" where
  "reject_selectors text = Inl (SyntaxError text)"

definition meta_node :: element where
  "meta_node = Element 0 ''meta'' [(''charset'', ''utf-8'')] [] []"

definition empty_head :: css_root where
  "empty_head = \<lparr>childNodes = [], style_map = None, transformer = None, next_nid = 0,
     other_selectors = reject_selectors\<rparr>"

definition head_with_meta :: css_root where
  "head_with_meta = \<lparr>childNodes = [meta_node], style_map = None, transformer = None, next_nid = 1,
     other_selectors = reject_selectors\<rparr>"

text \<open>A head as the server renders it: the runtime style is already there, after \<open>meta\<close>.\<close>

definition ssr_runtime :: element where
  "ssr_runtime = Element 1 ''style'' [(''amp-runtime'', []), (''i-amphtml-version'', ''1'')] ''html{}'' []"

definition ssr_head :: css_root where
  "ssr_head = \<lparr>childNodes = [meta_node, ssr_runtime], style_map = None, transformer = None,
     next_nid = 2, other_selectors = reject_selectors\<rparr>"

text \<open>A head where the server rendered an extension style and no runtime style.\<close>

definition ssr_extension :: element where
  "ssr_extension = Element 0 ''style'' [(''amp-extension'', ''amp-foo'')] ''amp-foo{}'' []"

definition ssr_extension_head :: css_root where
  "ssr_extension_head = \<lparr>childNodes = [ssr_extension], style_map = None, transformer = None,
     next_nid = 1, other_selectors = reject_selectors\<rparr>"

text \<open>A head where the server rendered the extension style before the runtime style, a
  head where it rendered the runtime style twice, and a head where the runtime style is
  inside another element.\<close>

definition extension_first_head :: css_root where
  "extension_first_head = \<lparr>childNodes = [ssr_extension, ssr_runtime], style_map = None,
     transformer = None, next_nid = 2, other_selectors = reject_selectors\<rparr>"

definition second_runtime :: element where
  "second_runtime = Element 2 ''style'' [(''amp-runtime'', [])] ''body{}'' []"

definition twice_rendered_head :: css_root where
  "twice_rendered_head = \<lparr>childNodes = [meta_node, ssr_runtime, second_runtime], style_map = None,
     transformer = None, next_nid = 3, other_selectors = reject_selectors\<rparr>"

definition wrapper_node :: element where
  "wrapper_node = Element 0 ''div'' [] [] [ssr_runtime]"

definition nested_runtime_head :: css_root where
  "nested_runtime_head = \<lparr>childNodes = [wrapper_node], style_map = None, transformer = None,
     next_nid = 2, other_selectors = reject_selectors\<rparr>"

definition two_ext_calls :: "(string \<times> bool \<times> string option) list" where
  "two_ext_calls = [(''a{}'', False, Some ''amp-foo''), (''b{}'', False, Some ''amp-foo'')]"

text \<open>Two calls for an extension whose name is not an identifier.\<close>

definition dotted_ext_calls :: "(string \<times> bool \<times> string option) list" where
  "dotted_ext_calls = [(''a{}'', False, Some ''amp-foo-0.1''), (''b{}'', False, Some ''amp-foo-0.1'')]"

definition mixed_calls :: "(string \<times> bool \<times> string option) list" where
  "mixed_calls =
     [(''c{}'', False, Some ''amp-custom''), (''r{}'', True, None), (''f{}'', False, Some ''amp-foo''),
      (''b{}'', False, Some ''amp-bar''), (''r{}'', True, None), (''u{}'', False, None)]"

text \<open>A head with a transformer that scopes every rule text.\<close>

definition scoping_head :: css_root where
  "scoping_head = installCssTransformer empty_head (\<lambda>cssText. ''.scope '' @ cssText)"

text \<open>The style sheets of a root over time: the sheet of node 0 is listed from time 10 on.\<close>

definition sheets_from_10 :: "nat \<Rightarrow> styleSheet list" where
  "sheets_from_10 t = (if t < 10 then [\<lparr>ownerNode = None\<rparr>] else [\<lparr>ownerNode = None\<rparr>, \<lparr>ownerNode = Some 0\<rparr>])"

text \<open>The node that \<open>insertStyleElement\<close> creates on a root, before it is inserted.\<close>

definition new_style :: "css_root \<Rightarrow> string \<Rightarrow> (string \<times> string) list \<Rightarrow> element" where
  "new_style r css as = Element (next_nid r) ''style'' as css []"

section \<open>Body visibility\<close>

text \<open>
  One window with its document. \<open>sentinel\<close> is \<open>win.__AMP_BODY_VISIBLE\<close>; \<open>body\<close> is
  \<open>doc.body\<close> with its inline style, \<open>None\<close> while the document has no body yet;
  \<open>defaultView\<close> says whether the document has a window at all. The calls made to the
  collaborators are logged in \<open>effects\<close>, in order. \<open>body_waiters\<close> are the callbacks
  that \<open>waitForBody\<close> holds, each the closure of one \<open>makeBodyVisible\<close> call (it
  remembers \<open>opt_waitForServices\<close>); \<open>services_waits\<close> counts the continuations that wait
  for a promise of \<open>waitForServices\<close> to settle.
\<close>

datatype effect =
    SetStyles "(string \<times> string) list"
  | RenderStarted
  | SchedulePass nat bool
  | PerfTick string
  | PerfFlush
  | RethrowAsync exn

record page =
  defaultView :: bool
  sentinel :: bool
  body :: "(string \<rightharpoonup> string) option"
  effects :: "effect list"
  body_waiters :: "bool list"
  services_waits :: nat

text \<open>
  What the collaborators do during one call or one continuation: whether \<open>waitForBody\<close>
  or \<open>waitForServices\<close> throws at once, and whether the service locator finds the
  resources and the performance service (it throws for a service that is not installed).
\<close>

record env =
  waitForBody_throws :: "exn option"
  waitForServices_throws :: "exn option"
  resources_lookup :: "exn option"
  performance_lookup :: "exn option"

text \<open>
  Modelled from the spec: the style-property setter of \<open>./style\<close>, not among the sources,
  "applies a mapping of CSS property names to values onto an element".
\<close>

definition setStyles :: "(string \<rightharpoonup> string) \<Rightarrow> (string \<times> string) list \<Rightarrow> (string \<rightharpoonup> string)" where
  "setStyles st kvs = fold (\<lambda>(k, v) m. m(k \<mapsto> v)) kvs st"

definition visible_styles :: "(string \<times> string) list" where
  "visible_styles = [(''opacity'', ''1''), (''visibility'', ''visible''), (''animation'', ''none'')]"

definition log_effect :: "effect \<Rightarrow> page \<Rightarrow> page" where
  "log_effect x s = s\<lparr>effects := effects s @ [x]\<rparr>"

text \<open>\<open>renderStartedNoInline\<close>: a throw of the service lookup is caught and dropped.\<close>

definition renderStartedNoInline :: "env \<Rightarrow> page \<Rightarrow> page" where
  "renderStartedNoInline e s =
     (case resources_lookup e of None \<Rightarrow> log_effect RenderStarted s | Some x \<Rightarrow> s)"

text \<open>The closure \<open>set\<close> of \<open>makeBodyVisible\<close>; \<open>dev().assertElement(doc.body)\<close> throws
  when there is no body.\<close>

definition set_visible :: "env \<Rightarrow> page \<Rightarrow> exn option \<times> page" where
  "set_visible e s =
     (let s1 = s\<lparr>sentinel := True\<rparr>
      in case body s1 of
           None \<Rightarrow> (Some (AssertionError ''Element expected''), s1)
         | Some st \<Rightarrow>
             (None, renderStartedNoInline e
                (log_effect (SetStyles visible_styles) (s1\<lparr>body := Some (setStyles st visible_styles)\<rparr>))))"

text \<open>The callback handed to \<open>waitForBody\<close> (lines 248 to 272). The result is the value
  it throws, if any.\<close>

definition on_body :: "env \<Rightarrow> bool \<Rightarrow> page \<Rightarrow> exn option \<times> page" where
  "on_body e opt_waitForServices s =
     (if sentinel s then (None, s)
      else
        (let s1 = s\<lparr>sentinel := True\<rparr>
         in if opt_waitForServices then
              (case waitForServices_throws e of
                 Some x \<Rightarrow> (Some x, s1)
               | None \<Rightarrow> (None, s1\<lparr>services_waits := Suc (services_waits s1)\<rparr>))
            else set_visible e s1))"

text \<open>
  Modelled from the spec: \<open>waitForBody(doc, callback)\<close> of the DOM helpers, not among the
  sources, "invokes callback once the body node exists, synchronously if already present".
  Being foreign code inside the \<open>try\<close> block, it may also throw before it does either.
\<close>

definition waitForBody :: "env \<Rightarrow> bool \<Rightarrow> page \<Rightarrow> exn option \<times> page" where
  "waitForBody e opt_waitForServices s =
     (case waitForBody_throws e of
        Some x \<Rightarrow> (Some x, s)
      | None \<Rightarrow>
          (case body s of
             None \<Rightarrow> (None, s\<lparr>body_waiters := body_waiters s @ [opt_waitForServices]\<rparr>)
           | Some st \<Rightarrow> on_body e opt_waitForServices s))"

text \<open>The result of \<open>makeBodyVisible\<close> is the value thrown to its caller, if any.\<close>

definition makeBodyVisible :: "env \<Rightarrow> bool \<Rightarrow> page \<Rightarrow> exn option \<times> page" where
  "makeBodyVisible e opt_waitForServices s =
     (if \<not> defaultView s then
        (Some (AssertionError ''Passed in document must have a defaultView''), s)
      else if sentinel s then (None, s)
      else
        (case waitForBody e opt_waitForServices s of
           (None, s1) \<Rightarrow> (None, s1)
         | (Some x, s1) \<Rightarrow>
             (case set_visible e s1 of
                (Some y, s2) \<Rightarrow> (Some y, s2)
              | (None, s2) \<Rightarrow> (None, log_effect (RethrowAsync x) s2))))"

definition bodyAlwaysVisible :: "page \<Rightarrow> page" where
  "bodyAlwaysVisible s = s\<lparr>sentinel := True\<rparr>"

text \<open>How the promise of \<open>waitForServices\<close> settles.\<close>

datatype settled = Resolved "string list" | Rejected exn

text \<open>\<open>perf.tick('mbv'); perf.flush()\<close> inside \<open>try\<close>/\<open>catch\<close>.\<close>

definition tick_mbv :: "env \<Rightarrow> page \<Rightarrow> page" where
  "tick_mbv e s =
     (case performance_lookup e of
        None \<Rightarrow> log_effect PerfFlush (log_effect (PerfTick ''mbv'') s)
      | Some x \<Rightarrow> s)"

text \<open>
  The continuation of lines 254 to 268, run by the host when the promise settles: the
  \<open>catch\<close> handler turns a rejection into the empty list after \<open>rethrowAsync\<close>, then the
  \<open>then\<close> handler runs. The result is a value the handler throws (an unhandled
  rejection). Without a waiting continuation nothing runs.
\<close>

definition services_settled :: "env \<Rightarrow> settled \<Rightarrow> page \<Rightarrow> exn option \<times> page" where
  "services_settled e outcome s =
     (if services_waits s = 0 then (None, s)
      else
        (let s0 = s\<lparr>services_waits := services_waits s - 1\<rparr>;
             (services, s1) =
               (case outcome of
                  Resolved svcs \<Rightarrow> (svcs, s0)
                | Rejected reason \<Rightarrow> ([], log_effect (RethrowAsync reason) s0))
         in case set_visible e s1 of
              (Some x, s2) \<Rightarrow> (Some x, s2)
            | (None, s2) \<Rightarrow>
                (if length services > 0 then
                   (case resources_lookup e of
                      Some x \<Rightarrow> (Some x, s2)
                    | None \<Rightarrow> (None, tick_mbv e (log_effect (SchedulePass 1 True) s2)))
                 else (None, tick_mbv e s2))))"

text \<open>The host: the parser creates the body; \<open>waitForBody\<close> runs the callback it has held
  longest, once there is a body.\<close>

definition body_parsed :: "(string \<rightharpoonup> string) \<Rightarrow> page \<Rightarrow> page" where
  "body_parsed st s = (case body s of None \<Rightarrow> s\<lparr>body := Some st\<rparr> | Some st' \<Rightarrow> s)"

definition body_reported :: "env \<Rightarrow> page \<Rightarrow> exn option \<times> page" where
  "body_reported e s =
     (case body s of
        None \<Rightarrow> (None, s)
      | Some st \<Rightarrow>
          (case body_waiters s of
             [] \<Rightarrow> (None, s)
           | w # ws \<Rightarrow> on_body e w (s\<lparr>body_waiters := ws\<rparr>)))"

text \<open>Everything that can happen to the page, in any order; a value thrown to the host
  or to a caller does not stop later events.\<close>

datatype event =
    MakeBodyVisible env bool
  | BodyAlwaysVisible
  | BodyParsed "string \<rightharpoonup> string"
  | BodyReported env
  | ServicesSettled env settled

fun step :: "event \<Rightarrow> page \<Rightarrow> page" where
  "step (MakeBodyVisible e w) s = snd (makeBodyVisible e w s)"
| "step BodyAlwaysVisible s = bodyAlwaysVisible s"
| "step (BodyParsed st) s = body_parsed st s"
| "step (BodyReported e) s = snd (body_reported e s)"
| "step (ServicesSettled e outcome) s = snd (services_settled e outcome s)"

fun run :: "event list \<Rightarrow> page \<Rightarrow> page" where
  "run [] s = s"
| "run (ev # evs) s = run evs (step ev s)"

text \<open>How often the body styles were set and the resources were told that rendering
  started.\<close>

definition transitions :: "page \<Rightarrow> nat" where
  "transitions s = length (filter (\<lambda>x. x = SetStyles visible_styles) (effects s))"

definition renders :: "page \<Rightarrow> nat" where
  "renders s = length (filter (\<lambda>x. x = RenderStarted) (effects s))"

text \<open>
  The state of a window between events: the transition has happened at most once, or is
  still owed by one waiting continuation; before the sentinel is set neither is the case.
\<close>

definition vis_inv :: "page \<Rightarrow> bool" where
  "vis_inv s =
     (transitions s + services_waits s \<le> 1 \<and> renders s \<le> transitions s \<and>
      (\<not> sentinel s \<longrightarrow> transitions s = 0 \<and> services_waits s = 0))"

text \<open>What the transition and the timing mark add to the log.\<close>

definition render_log :: "env \<Rightarrow> effect list" where
  "render_log e = (case resources_lookup e of None \<Rightarrow> [RenderStarted] | Some x \<Rightarrow> [])"

definition perf_log :: "env \<Rightarrow> effect list" where
  "perf_log e = (case performance_lookup e of None \<Rightarrow> [PerfTick ''mbv'', PerfFlush] | Some x \<Rightarrow> [])"

definition quiet_env :: env where
  "quiet_env = \<lparr>waitForBody_throws = None, waitForServices_throws = None,
     resources_lookup = None, performance_lookup = None\<rparr>"

definition hidden_page :: page where
  "hidden_page = \<lparr>defaultView = True, sentinel = False, body = Some Map.empty, effects = [],
     body_waiters = [], services_waits = 0\<rparr>"

definition failing_wait_env :: env where
  "failing_wait_env = quiet_env\<lparr>waitForBody_throws := Some (HostError ''waitForBody'')\<rparr>"

definition two_calls_and_settle :: "event list" where
  "two_calls_and_settle =
     [MakeBodyVisible quiet_env True, MakeBodyVisible quiet_env False,
      ServicesSettled quiet_env (Resolved [''amp-dynamic-css-classes'']),
      MakeBodyVisible quiet_env False]"

definition bodyless_page :: page where
  "bodyless_page = \<lparr>defaultView = True, sentinel = False, body = None, effects = [],
     body_waiters = [], services_waits = 0\<rparr>"

section \<open>Properties of the style installer\<close>

subsection \<open>The root through the helper functions\<close>

lemma the_style_map_ensure [simp]: "the_style_map (ensure_style_map r) = the_style_map r"
  by (simp add: the_style_map_def ensure_style_map_def split: option.splits)

lemma fields_ensure [simp]:
  "childNodes (ensure_style_map r) = childNodes r"
  "next_nid (ensure_style_map r) = next_nid r"
  "transformer (ensure_style_map r) = transformer r"
  "other_selectors (ensure_style_map r) = other_selectors r"
  by (simp_all add: ensure_style_map_def split: option.splits)

lemma style_map_ensure: "style_map (ensure_style_map r) = Some (the_style_map r)"
  by (simp add: the_style_map_def ensure_style_map_def split: option.splits)

lemma ensure_idem: "style_map r = Some m \<Longrightarrow> ensure_style_map r = r"
  by (simp add: ensure_style_map_def)

lemma querySelector_ensure [simp]: "querySelector (ensure_style_map r) k = querySelector r k"
  by (simp add: querySelector_def split: option.splits sum.splits)

lemma fields_record_style [simp]:
  "childNodes (record_style r k e) = childNodes r"
  "next_nid (record_style r k e) = next_nid r"
  "transformer (record_style r k e) = transformer r"
  "other_selectors (record_style r k e) = other_selectors r"
  "the_style_map (record_style r k e) = (the_style_map r)(k \<mapsto> e)"
  by (simp_all add: record_style_def the_style_map_def)

lemma querySelector_record_style [simp]: "querySelector (record_style r k e) k' = querySelector r k'"
  by (simp add: querySelector_def split: option.splits sum.splits)

lemma querySelector_next_nid [simp]: "querySelector (r\<lparr>next_nid := n\<rparr>) k = querySelector r k"
  by (simp add: querySelector_def split: option.splits sum.splits)

lemma the_style_map_next_nid [simp]: "the_style_map (r\<lparr>next_nid := n\<rparr>) = the_style_map r"
  by (simp add: the_style_map_def)

lemma the_style_map_childNodes [simp]: "the_style_map (r\<lparr>childNodes := n\<rparr>) = the_style_map r"
  by (simp add: the_style_map_def)

lemma lastChild_simps [simp]:
  "lastChild (ensure_style_map r) = lastChild r"
  "lastChild (r\<lparr>next_nid := n\<rparr>) = lastChild r"
  by (simp_all add: lastChild_def)

lemma new_style_fields [simp]:
  "nid (new_style r css as) = next_nid r"
  "tagName (new_style r css as) = ''style''"
  "attrs (new_style r css as) = as"
  "textContent (new_style r css as) = css"
  "children (new_style r css as) = []"
  by (simp_all add: new_style_def)

subsection \<open>The nodes below a root\<close>

lemma descendants_simps [simp]:
  "descendants [] = []"
  "descendants (c # cs) = subtree c @ descendants cs"
  "descendants (xs @ ys) = descendants xs @ descendants ys"
  by (simp_all add: descendants_def)

lemma subtree_self: "subtree e = e # descendants (children e)"
  by (cases e) (simp add: descendants_def)

lemma subtree_leaf: "children e = [] \<Longrightarrow> subtree e = [e]"
  by (simp add: subtree_self)

lemma subtree_new_style [simp]: "subtree (new_style r css as) = [new_style r css as]"
  by (simp add: subtree_leaf)

lemma child_is_descendant: "e \<in> set cs \<Longrightarrow> e \<in> set (descendants cs)"
  by (induction cs) (auto simp: subtree_self)

lemma descendants_insert_after_set:
  "set (descendants (insert_after n a cs)) = set (subtree n) \<union> set (descendants cs)"
  by (induction cs) auto

lemma descendants_insert_after_count:
  "length (filter P (descendants (insert_after n a cs))) =
     length (filter P (subtree n)) + length (filter P (descendants cs))"
  by (induction cs) auto

lemma set_insert_after [simp]: "set (insert_after n a cs) = insert n (set cs)"
  by (induction cs) auto

lemma length_insert_after [simp]: "length (insert_after n a cs) = Suc (length cs)"
  by (induction cs) auto

subsection \<open>The selector text\<close>

lemma css_ident_markers [simp]: "css_ident ''amp-runtime''" "css_ident ''amp-extension''"
  by (simp_all add: css_ident_def ident_start_def ident_char_def)

lemma parse_key_runtime [simp]: "parse_key ''amp-runtime'' = Some (HasAttribute ''amp-runtime'')"
proof -
  have "takeWhile (\<lambda>c. c \<noteq> CHR ''='') ''amp-runtime'' = ''amp-runtime''"
    "dropWhile (\<lambda>c. c \<noteq> CHR ''='') ''amp-runtime'' = []"
    by simp_all
  then show ?thesis
    using css_ident_markers(1) by (simp only: parse_key_def Let_def list.case if_True)
qed

lemma parse_key_extension:
  "parse_key (''amp-extension='' @ x) =
     (if css_ident x then Some (AttributeEquals ''amp-extension'' x) else None)"
proof -
  have "takeWhile (\<lambda>c. c \<noteq> CHR ''='') (''amp-extension='' @ x) = ''amp-extension''"
    "dropWhile (\<lambda>c. c \<noteq> CHR ''='') (''amp-extension='' @ x) = CHR ''='' # x"
    by simp_all
  then show ?thesis
    using css_ident_markers(2) by (simp only: parse_key_def Let_def list.case simp_thms)
qed

lemma plain_key_runtime [simp]: "plain_key ''amp-runtime''"
  by (simp add: plain_key_def)

lemma plain_key_extension: "plain_key (''amp-extension='' @ x) \<longleftrightarrow> css_ident x"
  by (simp only: plain_key_def parse_key_extension) simp

lemma querySelector_plain:
  "parse_key k = Some sel \<Longrightarrow>
     querySelector r k = Inr (find (selects sel) (descendants (childNodes r)))"
  by (simp add: querySelector_def)

lemma selector_matches_plain:
  "parse_key k = Some sel \<Longrightarrow> selector_matches k = selects sel"
  by (simp add: selector_matches_def fun_eq_iff)

lemma querySelector_plain_key:
  "plain_key k \<Longrightarrow>
     querySelector r k = Inr (find (selector_matches k) (descendants (childNodes r)))"
  by (auto simp: plain_key_def querySelector_plain selector_matches_plain)

lemma querySelector_found:
  "querySelector r k = Inr (Some e) \<Longrightarrow>
     e \<in> set (descendants (childNodes r)) \<and> (plain_key k \<longrightarrow> selector_matches k e)"
  by (auto simp: querySelector_def plain_key_def selector_matches_def find_Some_iff
      split: option.splits sum.splits)

lemma querySelector_none:
  "plain_key k \<Longrightarrow> querySelector r k = Inr None \<longleftrightarrow> marked_count r k = 0"
  by (auto simp: querySelector_plain_key marked_count_def find_None_iff filter_empty_conv)

lemma new_runtime_matches: "selector_matches ''amp-runtime'' (new_style r css [(''amp-runtime'', v)])"
  by (simp add: selector_matches_def)

lemma new_extension_matches:
  "css_ident x \<Longrightarrow>
     selector_matches (''amp-extension='' @ x) (new_style r css [(''amp-extension'', x)])"
  by (simp only: selector_matches_def parse_key_extension) simp

subsection \<open>Lookups in the registry and below the root\<close>

lemma style_key_None_iff:
  "style_key rt ext = None \<longleftrightarrow>
     \<not> rt \<and> (\<not> truthy ext \<or> ext = Some ''amp-custom'' \<or> ext = Some ''amp-keyframes'')"
  by (auto simp: style_key_def isExtCss_of_def)

lemma style_key_runtime_iff: "style_key rt ext = Some ''amp-runtime'' \<longleftrightarrow> rt"
  by (simp add: style_key_def)

lemma style_key_extension:
  "style_key rt ext = Some k \<Longrightarrow> \<not> rt \<Longrightarrow>
     isExtCss_of rt ext \<and> k = ''amp-extension='' @ str_of ext"
  by (auto simp: style_key_def split: if_splits)

lemma getExisting_fields [simp]:
  "childNodes (snd (getExistingStyleElement r k)) = childNodes r"
  "next_nid (snd (getExistingStyleElement r k)) = next_nid r"
  "transformer (snd (getExistingStyleElement r k)) = transformer r"
  "other_selectors (snd (getExistingStyleElement r k)) = other_selectors r"
  by (simp_all add: getExistingStyleElement_def split: option.splits sum.splits)

lemma getExisting_registered:
  "the_style_map r k = Some e \<Longrightarrow> getExistingStyleElement r k = (Inr (Some e), r)"
  by (simp add: getExistingStyleElement_def)

lemma getExisting_cases:
  "getExistingStyleElement r k =
     (case the_style_map r k of
        Some e \<Rightarrow> (Inr (Some e), r)
      | None \<Rightarrow>
          (case querySelector r k of
             Inl x \<Rightarrow> (Inl x, r)
           | Inr None \<Rightarrow> (Inr None, r)
           | Inr (Some e) \<Rightarrow> (Inr (Some e), record_style r k e)))"
  by (simp add: getExistingStyleElement_def split: option.splits sum.splits)

lemma getExisting_throws: "fst (getExistingStyleElement r k) = Inl x \<Longrightarrow> snd (getExistingStyleElement r k) = r"
  by (simp add: getExisting_cases split: option.splits sum.splits)

lemma getExisting_nothing:
  "fst (getExistingStyleElement r k) = Inr None \<Longrightarrow> snd (getExistingStyleElement r k) = r"
  by (simp add: getExisting_cases split: option.splits sum.splits)

lemma getExisting_nothing_iff:
  "fst (getExistingStyleElement r k) = Inr None \<longleftrightarrow>
     the_style_map r k = None \<and> querySelector r k = Inr None"
  by (simp add: getExisting_cases split: option.splits sum.splits)

lemma getExisting_map:
  "fst (getExistingStyleElement r k) = Inr (Some e) \<Longrightarrow>
     the_style_map (snd (getExistingStyleElement r k)) = (the_style_map r)(k \<mapsto> e)"
  by (auto simp: getExisting_cases split: option.splits sum.splits)

lemma getExisting_plain: "plain_key k \<Longrightarrow> fst (getExistingStyleElement r k) \<noteq> Inl x"
  by (simp add: getExisting_cases querySelector_plain_key split: option.splits)

lemma fst_getExisting_ensure [simp]:
  "fst (getExistingStyleElement (ensure_style_map r) k) = fst (getExistingStyleElement r k)"
  by (simp add: getExisting_cases split: option.splits sum.splits)

lemma fst_getExisting_next_nid [simp]:
  "fst (getExistingStyleElement (r\<lparr>next_nid := n\<rparr>) k) = fst (getExistingStyleElement r k)"
  by (simp add: getExisting_cases split: option.splits sum.splits)

lemma known_iff: "known r k \<longleftrightarrow> (\<exists>e. fst (getExistingStyleElement r k) = Inr (Some e))"
  by (auto simp: known_def split: sum.splits option.splits)

lemma known_ensure [simp]: "known (ensure_style_map r) k = known r k"
  by (simp add: known_def)

lemma unknown_plain:
  "plain_key k \<Longrightarrow> \<not> known r k \<Longrightarrow> fst (getExistingStyleElement r k) = Inr None"
  using getExisting_plain [of k r]
  by (cases "fst (getExistingStyleElement r k)") (auto simp: known_iff)

lemma getExisting_sound:
  "registry_ok r \<Longrightarrow> fst (getExistingStyleElement r k) = Inr (Some e) \<Longrightarrow>
     e \<in> set (descendants (childNodes r)) \<and> (plain_key k \<longrightarrow> selector_matches k e)"
  by (auto simp: getExisting_cases registry_ok_def split: option.splits sum.splits
      dest: querySelector_found)

lemma registry_ok_getExisting:
  "registry_ok r \<Longrightarrow> registry_ok (snd (getExistingStyleElement r k))"
  by (auto simp: getExisting_cases registry_ok_def split: option.splits sum.splits
      dest: querySelector_found)

lemma registry_ok_ensure [simp]: "registry_ok (ensure_style_map r) = registry_ok r"
  by (simp add: registry_ok_def)

lemma registry_ok_next_nid [simp]: "registry_ok (r\<lparr>next_nid := n\<rparr>) = registry_ok r"
  by (simp add: registry_ok_def)

lemma registry_ok_fresh: "style_map r = None \<Longrightarrow> registry_ok r"
  by (simp add: registry_ok_def the_style_map_def)

lemma marked_count_fields [simp]:
  "marked_count (ensure_style_map r) k = marked_count r k"
  "marked_count (snd (getExistingStyleElement r k')) k = marked_count r k"
  "marked_count (r\<lparr>next_nid := n\<rparr>) k = marked_count r k"
  by (simp_all add: marked_count_def)

lemma nothing_plain_count:
  "plain_key k \<Longrightarrow> fst (getExistingStyleElement r k) = Inr None \<Longrightarrow> marked_count r k = 0"
  by (simp add: getExisting_nothing_iff querySelector_none)

lemma style_map_getExisting:
  "style_map r \<noteq> None \<Longrightarrow> style_map (snd (getExistingStyleElement r k)) \<noteq> None"
  by (simp add: getExisting_cases record_style_def split: option.splits sum.splits)

lemma style_map_record_style [simp]:
  "style_map (record_style r k e) \<noteq> None" "\<exists>m. style_map (record_style r k e) = Some m"
  by (simp_all add: record_style_def)

subsection \<open>The branches of \<open>insertStyleElement\<close>\<close>

lemma insert_uncached:
  assumes "style_key rt ext = None"
  shows "\<exists>r'. insertStyleElement r css rt ext =
           (Inr (new_style r css (if truthy ext then [(str_of ext, [])] else [])), r') \<and>
         childNodes r' = insertAfterOrAtStart (childNodes r)
            (new_style r css (if truthy ext then [(str_of ext, [])] else [])) (lastChild r) \<and>
         next_nid r' = Suc (next_nid r) \<and> the_style_map r' = the_style_map r \<and>
         transformer r' = transformer r"
  using assms
  by (auto simp: insertStyleElement_def style_key_def insert_and_record_def new_style_def
      setAttribute_def Let_def split: if_splits)

lemma insert_throws:
  assumes "style_key rt ext = Some k" and "fst (getExistingStyleElement r k) = Inl x"
  shows "insertStyleElement r css rt ext = (Inl x, ensure_style_map r)"
proof -
  from assms(2) have "fst (getExistingStyleElement (ensure_style_map r) k) = Inl x" by simp
  with getExisting_throws [OF this] assms(1) show ?thesis
    by (cases "getExistingStyleElement (ensure_style_map r) k")
       (simp add: insertStyleElement_def Let_def)
qed

lemma insert_known:
  assumes "style_key rt ext = Some k" and "fst (getExistingStyleElement r k) = Inr (Some e)"
  shows "insertStyleElement r css rt ext =
           (Inr e, snd (getExistingStyleElement (ensure_style_map r) k))"
proof -
  from assms(2) have "fst (getExistingStyleElement (ensure_style_map r) k) = Inr (Some e)" by simp
  with assms(1) show ?thesis
    by (cases "getExistingStyleElement (ensure_style_map r) k")
       (simp add: insertStyleElement_def Let_def)
qed

lemma insert_runtime_new:
  assumes "fst (getExistingStyleElement r ''amp-runtime'') = Inr None"
  shows "\<exists>r'. insertStyleElement r css True ext =
            (Inr (new_style r css [(''amp-runtime'', [])]), r') \<and>
          childNodes r' = new_style r css [(''amp-runtime'', [])] # childNodes r \<and>
          the_style_map r' = (the_style_map r)(''amp-runtime'' \<mapsto> new_style r css [(''amp-runtime'', [])]) \<and>
          next_nid r' = Suc (next_nid r) \<and> transformer r' = transformer r \<and>
          style_map r' \<noteq> None"
proof -
  from assms have l: "fst (getExistingStyleElement (ensure_style_map r) ''amp-runtime'') = Inr None"
    by simp
  from l getExisting_nothing [OF l]
  have "getExistingStyleElement (ensure_style_map r) ''amp-runtime'' = (Inr None, ensure_style_map r)"
    by (cases "getExistingStyleElement (ensure_style_map r) ''amp-runtime''") simp
  then show ?thesis
    by (simp add: insertStyleElement_def style_key_def Let_def insert_and_record_def
        insertAfterOrAtStart_def setAttribute_def new_style_def)
qed

lemma insert_extension_new:
  assumes "style_key False ext = Some k" and "fst (getExistingStyleElement r k) = Inr None"
    and "fst (getExistingStyleElement r ''amp-runtime'') = Inr (Some a)"
  shows "\<exists>r'. insertStyleElement r css False ext =
            (Inr (new_style r css [(''amp-extension'', str_of ext)]), r') \<and>
          childNodes r' = insert_after (new_style r css [(''amp-extension'', str_of ext)]) a (childNodes r) \<and>
          the_style_map r' = (the_style_map r)(''amp-runtime'' \<mapsto> a, k \<mapsto> new_style r css [(''amp-extension'', str_of ext)]) \<and>
          next_nid r' = Suc (next_nid r) \<and> transformer r' = transformer r \<and>
          style_map r' \<noteq> None"
proof -
  from assms(1) have ext: "isExtCss_of False ext" and k: "k = ''amp-extension='' @ str_of ext"
    using style_key_extension [of False ext k] by simp_all
  from assms(2) have l: "fst (getExistingStyleElement (ensure_style_map r) k) = Inr None" by simp
  from l getExisting_nothing [OF l]
  have none: "getExistingStyleElement (ensure_style_map r) k = (Inr None, ensure_style_map r)"
    by (cases "getExistingStyleElement (ensure_style_map r) k") simp
  let ?r2 = "(ensure_style_map r)\<lparr>next_nid := Suc (next_nid r)\<rparr>"
  from assms(3) have rt: "fst (getExistingStyleElement ?r2 ''amp-runtime'') = Inr (Some a)"
    by simp
  then obtain r3 where r3: "getExistingStyleElement ?r2 ''amp-runtime'' = (Inr (Some a), r3)"
    by (cases "getExistingStyleElement ?r2 ''amp-runtime''") simp
  have f: "childNodes r3 = childNodes r" "next_nid r3 = Suc (next_nid r)"
    "transformer r3 = transformer r"
    "the_style_map r3 = (the_style_map r)(''amp-runtime'' \<mapsto> a)"
    using getExisting_fields [of ?r2 "''amp-runtime''"] getExisting_map [OF rt] r3 by simp_all
  show ?thesis
    using assms(1) ext none r3 f
    by (simp add: insertStyleElement_def Let_def insert_and_record_def
        insertAfterOrAtStart_def setAttribute_def new_style_def)
qed

lemma insert_extension_fails:
  assumes "style_key False ext = Some k" and "fst (getExistingStyleElement r k) = Inr None"
    and "fst (getExistingStyleElement r ''amp-runtime'') = Inr None"
  shows "insertStyleElement r css False ext =
           (Inl (AssertionError ''Element expected''),
            (ensure_style_map r)\<lparr>next_nid := Suc (next_nid r)\<rparr>)"
proof -
  from assms(1) have ext: "isExtCss_of False ext"
    using style_key_extension [of False ext k] by simp
  from assms(2) have l: "fst (getExistingStyleElement (ensure_style_map r) k) = Inr None" by simp
  from l getExisting_nothing [OF l]
  have none: "getExistingStyleElement (ensure_style_map r) k = (Inr None, ensure_style_map r)"
    by (cases "getExistingStyleElement (ensure_style_map r) k") simp
  let ?r2 = "(ensure_style_map r)\<lparr>next_nid := Suc (next_nid r)\<rparr>"
  from assms(3) have l2: "fst (getExistingStyleElement ?r2 ''amp-runtime'') = Inr None" by simp
  from l2 getExisting_nothing [OF l2]
  have "getExistingStyleElement ?r2 ''amp-runtime'' = (Inr None, ?r2)"
    by (cases "getExistingStyleElement ?r2 ''amp-runtime''") simp
  with assms(1) ext none show ?thesis
    by (simp add: insertStyleElement_def Let_def)
qed

lemma runtime_lookup_cases:
  "fst (getExistingStyleElement r ''amp-runtime'') = Inr None \<or>
   (\<exists>a. fst (getExistingStyleElement r ''amp-runtime'') = Inr (Some a))"
  using getExisting_plain [OF plain_key_runtime, of r]
  by (cases "fst (getExistingStyleElement r ''amp-runtime'')") auto

subsection \<open>Installs with no key\<close>

lemma insert_after_last:
  "distinct (map nid cs) \<Longrightarrow> cs \<noteq> [] \<Longrightarrow> insert_after new (last cs) cs = cs @ [new]"
proof (induction cs)
  case Nil
  then show ?case by simp
next
  case (Cons c cs)
  show ?case
  proof (cases "cs = []")
    case True
    then show ?thesis by simp
  next
    case False
    with Cons.prems have "nid c \<noteq> nid (last cs)"
      by (metis distinct.simps(2) image_eqI last_in_set list.simps(9) set_map)
    with Cons False show ?thesis by simp
  qed
qed

lemma append_at_end:
  "distinct (map nid (childNodes r)) \<Longrightarrow>
   insertAfterOrAtStart (childNodes r) new (lastChild r) = childNodes r @ [new]"
  using insert_after_last [of "childNodes r" new]
  by (cases "childNodes r") (simp_all add: insertAfterOrAtStart_def lastChild_def)

lemma insert_uncached_ok:
  assumes "style_key rt ext = None" and "dom_ok r"
  shows "case insertStyleElement r css rt ext of
           (res, r') \<Rightarrow>
             (\<exists>s. res = Inr s \<and> nid s = next_nid r \<and> textContent s = css \<and>
                  childNodes r' = childNodes r @ [s] \<and>
                  the_style_map r' = the_style_map r \<and> dom_ok r')"
proof -
  let ?s = "new_style r css (if truthy ext then [(str_of ext, [])] else [])"
  from insert_uncached [OF assms(1), of r css] obtain r' where
    r': "insertStyleElement r css rt ext = (Inr ?s, r')"
      "childNodes r' = insertAfterOrAtStart (childNodes r) ?s (lastChild r)"
      "next_nid r' = Suc (next_nid r)" "the_style_map r' = the_style_map r"
    by blast
  from assms(2) have d: "distinct (map nid (childNodes r))"
    and b: "\<forall>e\<in>set (childNodes r). nid e < next_nid r"
    by (simp_all add: dom_ok_def list_all_iff)
  have c: "childNodes r' = childNodes r @ [?s]"
    using r'(2) append_at_end [OF d] by simp
  have n: "nid ?s = next_nid r" by (simp add: new_style_def)
  have "dom_ok r'"
    using d b c n r'(3) by (auto simp: dom_ok_def list_all_iff less_Suc_eq)
  with r' c n show ?thesis by (simp add: new_style_def)
qed

lemma install_all_uncached:
  assumes "dom_ok r"
    and "list_all (\<lambda>c. style_key (fst (snd c)) (snd (snd c)) = None) calls"
  shows "case install_all r calls of
           (ress, r') \<Rightarrow>
             (\<exists>news. ress = map Inr news \<and> length news = length calls \<and>
                 map textContent news = map fst calls \<and>
                 distinct (map nid news) \<and>
                 (\<forall>n\<in>set news. nid n \<notin> nid ` set (childNodes r)) \<and>
                 childNodes r' = childNodes r @ news \<and>
                 the_style_map r' = the_style_map r \<and> dom_ok r')"
  using assms
proof (induction calls arbitrary: r)
  case Nil
  then show ?case by simp
next
  case (Cons c calls)
  obtain css rt ext where c: "c = (css, rt, ext)" by (cases c) auto
  from Cons.prems(2) c have k: "style_key rt ext = None"
    and rest: "list_all (\<lambda>c. style_key (fst (snd c)) (snd (snd c)) = None) calls"
    by simp_all
  from insert_uncached_ok [OF k Cons.prems(1), of css] obtain s r1 where
    one: "insertStyleElement r css rt ext = (Inr s, r1)" "nid s = next_nid r"
      "textContent s = css" "childNodes r1 = childNodes r @ [s]"
      "the_style_map r1 = the_style_map r" "dom_ok r1"
    by (auto split: prod.splits)
  from Cons.IH [OF one(6) rest] obtain ress r' news where
    more: "install_all r1 calls = (ress, r')" "ress = map Inr news"
      "length news = length calls" "map textContent news = map fst calls"
      "distinct (map nid news)" "\<forall>n\<in>set news. nid n \<notin> nid ` set (childNodes r1)"
      "childNodes r' = childNodes r1 @ news" "the_style_map r' = the_style_map r1" "dom_ok r'"
    by (auto split: prod.splits)
  from Cons.prems(1) one(2) have fresh: "nid s \<notin> nid ` set (childNodes r)"
    by (auto simp: dom_ok_def list_all_iff)
  from more(6) one(4) have sep: "nid s \<notin> nid ` set news"
    and old: "\<forall>n\<in>set news. nid n \<notin> nid ` set (childNodes r)"
    by auto
  have eq: "install_all r (c # calls) = (map Inr (s # news), r')"
    using c one(1) more(1,2) by simp
  have "distinct (map nid (s # news))"
    using more(5) sep by simp
  moreover have "childNodes r' = childNodes r @ (s # news)"
    using more(7) one(4) by simp
  ultimately show ?case
    unfolding eq prod.case
    using more(3,4,8,9) one(3,5) c fresh old
    by (intro exI [of _ "s # news"]) simp
qed

text \<open>The definitions that evaluate a call on a concrete root.\<close>

lemmas eval_defs =
  insertStyleElement_def style_key_def isExtCss_of_def truthy_def str_of_def
  ensure_style_map_def insert_and_record_def insertAfterOrAtStart_def lastChild_def
  setAttribute_def getExistingStyleElement_def the_style_map_def record_style_def
  querySelector_def parse_key_def css_ident_def ident_start_def ident_char_def
  descendants_def reject_selectors_def Let_def

text \<open>
  Claim C8. An install whose logical key is null (not the runtime style, and the extension
  name absent, empty, \<open>amp-custom\<close> or \<open>amp-keyframes\<close>) always returns a node it has
  just created. For any sequence of such calls on a root: the calls return as many nodes
  as there are calls, with pairwise different identities, none of them the identity of a
  node that was under the root before; each new node holds the text it was given and is
  placed after the last child of that moment, so that the children in the end are the
  old children, untouched, followed by the new nodes in call order; the registry is as
  it was.
\<close>

theorem uncached_installs_append_fresh_nodes:
  assumes "dom_ok r"
    and "list_all (\<lambda>(cssText, isRuntimeCss, ext). \<not> isRuntimeCss \<and>
           (\<not> truthy ext \<or> ext = Some ''amp-custom'' \<or> ext = Some ''amp-keyframes'')) calls"
  shows "case install_all r calls of
           (ress, r') \<Rightarrow>
             (\<exists>news. ress = map Inr news \<and> length news = length calls \<and>
                 map textContent news = map fst calls \<and>
                 distinct (map nid news) \<and>
                 (\<forall>n\<in>set news. nid n \<notin> nid ` set (childNodes r)) \<and>
                 childNodes r' = childNodes r @ news \<and>
                 the_style_map r' = the_style_map r)"
proof -
  from assms(2) have "list_all (\<lambda>c. style_key (fst (snd c)) (snd (snd c)) = None) calls"
    by (simp add: list_all_iff style_key_None_iff case_prod_beta)
  from install_all_uncached [OF assms(1) this] show ?thesis
    by (auto split: prod.splits)
qed

theorem uncached_installs_witness:
  "dom_ok head_with_meta \<and>
   map (map_sum id nid) (fst (install_all head_with_meta
      [(''a{}'', False, None), (''b{}'', False, Some ''amp-custom''), (''a{}'', False, None)])) =
     [Inr 1, Inr 2, Inr 3] \<and>
   map nid (childNodes (snd (install_all head_with_meta
      [(''a{}'', False, None), (''b{}'', False, Some ''amp-custom''), (''a{}'', False, None)]))) =
     [0, 1, 2, 3]"
  using uncached_installs_append_fresh_nodes [of head_with_meta
      "[(''a{}'', False, None), (''b{}'', False, Some ''amp-custom''), (''a{}'', False, None)]"]
  by (simp add: dom_ok_def head_with_meta_def meta_node_def insertStyleElement_def
      style_key_def isExtCss_of_def truthy_def str_of_def ensure_style_map_def
      insert_and_record_def insertAfterOrAtStart_def lastChild_def setAttribute_def
      getExistingStyleElement_def the_style_map_def record_style_def Let_def)

subsection \<open>Installs under one key\<close>

lemma insert_registered:
  assumes "style_key rt ext = Some k" and "the_style_map r k = Some e" and "style_map r \<noteq> None"
  shows "insertStyleElement r css rt ext = (Inr e, r)"
proof -
  from assms(3) have "ensure_style_map r = r"
    by (auto simp: ensure_style_map_def)
  with assms(1,2) show ?thesis
    by (simp add: insertStyleElement_def Let_def getExisting_registered)
qed

lemma first_keyed_install:
  assumes ok: "registry_ok r" and key: "style_key rt ext = Some k" and plain: "plain_key k"
    and pre: "k = ''amp-runtime'' \<or> known r k \<or> known r ''amp-runtime''"
  shows "\<exists>e r'. insertStyleElement r css rt ext = (Inr e, r') \<and>
           e \<in> set (descendants (childNodes r')) \<and> selector_matches k e \<and>
           the_style_map r' k = Some e \<and>
           marked_count r' k = (if marked_count r k = 0 then 1 else marked_count r k) \<and>
           (known r k \<longrightarrow> childNodes r' = childNodes r) \<and>
           length (childNodes r') \<le> Suc (length (childNodes r)) \<and>
           registry_ok r' \<and> style_map r' \<noteq> None"
proof (cases "known r k")
  case True
  then obtain e where e: "fst (getExistingStyleElement r k) = Inr (Some e)"
    by (auto simp: known_iff)
  let ?g = "getExistingStyleElement (ensure_style_map r) k"
  have ins: "insertStyleElement r css rt ext = (Inr e, snd ?g)"
    using insert_known [OF key e] .
  from e have e': "fst ?g = Inr (Some e)" by simp
  from ok have ok': "registry_ok (ensure_style_map r)" by simp
  from getExisting_sound [OF ok e] plain
  have m: "e \<in> set (descendants (childNodes r))" "selector_matches k e"
    by simp_all
  then have "marked_count r k \<noteq> 0"
    by (auto simp: marked_count_def filter_empty_conv)
  moreover have "the_style_map (snd ?g) k = Some e"
    using getExisting_map [OF e'] by simp
  moreover have "style_map (snd ?g) \<noteq> None"
    by (rule style_map_getExisting) (simp add: style_map_ensure)
  ultimately show ?thesis
    using ins m True registry_ok_getExisting [OF ok', of k] by simp
next
  case False
  from unknown_plain [OF plain False] have none: "fst (getExistingStyleElement r k) = Inr None" .
  from nothing_plain_count [OF plain none] have q: "marked_count r k = 0" .
  show ?thesis
  proof (cases rt)
    case True
    with key have k: "k = ''amp-runtime''" by (simp add: style_key_def)
    let ?s = "new_style r css [(''amp-runtime'', [])]"
    from insert_runtime_new [of r css ext] none k obtain r' where
      r': "insertStyleElement r css True ext = (Inr ?s, r')" "childNodes r' = ?s # childNodes r"
        "the_style_map r' = (the_style_map r)(''amp-runtime'' \<mapsto> ?s)" "style_map r' \<noteq> None"
      by blast
    have sm: "selector_matches k ?s"
      using new_runtime_matches [of r css "[]"] k by simp
    have "registry_ok r'"
      using ok r'(2,3) sm k by (auto simp: registry_ok_def)
    moreover have "marked_count r' k = 1"
      using q r'(2) sm by (simp add: marked_count_def)
    ultimately show ?thesis
      using r' True k q False sm by simp
  next
    case nrt: False
    with key have k: "k = ''amp-extension='' @ str_of ext" and ne: "k \<noteq> ''amp-runtime''"
      using style_key_extension [of rt ext k] by auto
    from plain k have id: "css_ident (str_of ext)"
      by (simp only: plain_key_extension)
    from pre False ne have "known r ''amp-runtime''" by simp
    then obtain a where a: "fst (getExistingStyleElement r ''amp-runtime'') = Inr (Some a)"
      by (auto simp: known_iff)
    let ?s = "new_style r css [(''amp-extension'', str_of ext)]"
    from insert_extension_new [OF _ none a, of ext css] key nrt obtain r' where
      r': "insertStyleElement r css False ext = (Inr ?s, r')"
        "childNodes r' = insert_after ?s a (childNodes r)"
        "the_style_map r' = (the_style_map r)(''amp-runtime'' \<mapsto> a, k \<mapsto> ?s)"
        "style_map r' \<noteq> None"
      by auto
    have sm: "selector_matches k ?s"
      using new_extension_matches [OF id, of r css] k by simp
    from getExisting_sound [OF ok a]
    have am: "a \<in> set (descendants (childNodes r))" "selector_matches ''amp-runtime'' a"
      by simp_all
    have ds: "set (descendants (childNodes r')) = insert ?s (set (descendants (childNodes r)))"
      using r'(2) by (simp add: descendants_insert_after_set)
    have "registry_ok r'"
      unfolding registry_ok_def ds r'(3)
      using ok sm am by (auto simp: registry_ok_def)
    moreover have "marked_count r' k = 1"
      using q r'(2) sm by (simp add: marked_count_def descendants_insert_after_count)
    ultimately show ?thesis
      using r' nrt q False sm ds by simp
  qed
qed

lemma repeat_keyed_installs:
  assumes "the_style_map r k = Some e" and "style_map r \<noteq> None"
    and "list_all (\<lambda>(cssText, isRuntimeCss, ext). style_key isRuntimeCss ext = Some k) calls"
  shows "install_all r calls = (replicate (length calls) (Inr e), r)"
  using assms(3)
proof (induction calls)
  case Nil
  then show ?case by simp
next
  case (Cons c calls)
  obtain css rt ext where c: "c = (css, rt, ext)" by (cases c) auto
  with Cons.prems have "style_key rt ext = Some k" by simp
  from insert_registered [OF this assms(1,2)] Cons c show ?case by simp
qed

lemma lookup_cases:
  "(\<exists>x. fst (getExistingStyleElement r k) = Inl x) \<or>
   fst (getExistingStyleElement r k) = Inr None \<or>
   (\<exists>e. fst (getExistingStyleElement r k) = Inr (Some e))"
  by (cases "fst (getExistingStyleElement r k)") auto

text \<open>Every install keeps the registry consistent, whatever it returns or throws.\<close>

lemma registry_ok_install:
  assumes ok: "registry_ok r"
  shows "registry_ok (snd (insertStyleElement r css rt ext))"
proof (cases "style_key rt ext")
  case None
  let ?s = "new_style r css (if truthy ext then [(str_of ext, [])] else [])"
  from insert_uncached [OF None, of r css] obtain r' where
    r': "insertStyleElement r css rt ext = (Inr ?s, r')"
      "childNodes r' = insertAfterOrAtStart (childNodes r) ?s (lastChild r)"
      "the_style_map r' = the_style_map r"
    by blast
  have "set (descendants (childNodes r)) \<subseteq> set (descendants (childNodes r'))"
    unfolding r'(2)
    by (cases "lastChild r") (auto simp: insertAfterOrAtStart_def descendants_insert_after_set)
  with ok r'(3) have "registry_ok r'" by (auto simp: registry_ok_def)
  with r'(1) show ?thesis by simp
next
  case (Some k)
  from lookup_cases [of r k] show ?thesis
  proof (elim disjE exE)
    fix x assume "fst (getExistingStyleElement r k) = Inl x"
    from insert_throws [OF Some this, of css] ok show ?thesis by simp
  next
    fix e assume "fst (getExistingStyleElement r k) = Inr (Some e)"
    from insert_known [OF Some this, of css]
      registry_ok_getExisting [of "ensure_style_map r" k] ok show ?thesis by simp
  next
    assume l: "fst (getExistingStyleElement r k) = Inr None"
    show ?thesis
    proof (cases rt)
      case True
      with Some have k: "k = ''amp-runtime''" by (simp add: style_key_def)
      let ?s = "new_style r css [(''amp-runtime'', [])]"
      from insert_runtime_new [of r css ext] l k obtain r' where
        r': "insertStyleElement r css True ext = (Inr ?s, r')" "childNodes r' = ?s # childNodes r"
          "the_style_map r' = (the_style_map r)(''amp-runtime'' \<mapsto> ?s)"
        by blast
      have "registry_ok r'"
        using ok r'(2,3) new_runtime_matches [of r css "[]"] by (auto simp: registry_ok_def)
      with r'(1) True show ?thesis by simp
    next
      case False
      with Some have kx: "k = ''amp-extension='' @ str_of ext" and ne: "k \<noteq> ''amp-runtime''"
        using style_key_extension [of rt ext k] by auto
      from runtime_lookup_cases [of r] show ?thesis
      proof (elim disjE exE)
        assume "fst (getExistingStyleElement r ''amp-runtime'') = Inr None"
        from insert_extension_fails [OF _ l this, of ext css] Some False ok show ?thesis by simp
      next
        fix a assume a: "fst (getExistingStyleElement r ''amp-runtime'') = Inr (Some a)"
        let ?s = "new_style r css [(''amp-extension'', str_of ext)]"
        from insert_extension_new [OF _ l a, of ext css] Some False obtain r' where
          r': "insertStyleElement r css False ext = (Inr ?s, r')"
            "childNodes r' = insert_after ?s a (childNodes r)"
            "the_style_map r' = (the_style_map r)(''amp-runtime'' \<mapsto> a, k \<mapsto> ?s)"
          by auto
        have sm: "selector_matches k ?s" if "plain_key k"
        proof -
          from that kx have "css_ident (str_of ext)" by (simp only: plain_key_extension)
          from new_extension_matches [OF this, of r css] kx show ?thesis by simp
        qed
        from getExisting_sound [OF ok a]
        have am: "a \<in> set (descendants (childNodes r))" "selector_matches ''amp-runtime'' a"
          by simp_all
        have ds: "set (descendants (childNodes r')) = insert ?s (set (descendants (childNodes r)))"
          using r'(2) by (simp add: descendants_insert_after_set)
        have "registry_ok r'"
          unfolding registry_ok_def ds r'(3)
          using ok sm am by (auto simp: registry_ok_def)
        with r'(1) False show ?thesis by simp
      qed
    qed
  qed
qed

lemma styleLoaded_iff_listed: "styleLoaded sheets style \<longleftrightarrow> listed sheets style"
  by (induction sheets) (auto simp: listed_def)

lemma notify_when_loaded_listed:
  "notify_when_loaded cb sheets style =
     (if cb then
        (if listed sheets style then \<lparr>cb_calls = [style], interval = None\<rparr>
         else \<lparr>cb_calls = [], interval = Some (4, style)\<rparr>)
      else \<lparr>cb_calls = [], interval = None\<rparr>)"
  by (simp add: notify_when_loaded_def styleLoaded_iff_listed)

text \<open>
  Claim C1, as amended. Take a root with a consistent registry, a logical key
  \<open>amp-runtime\<close> or \<open>amp-extension=<name>\<close> where the name is an identifier (so that
  \<open>style[<key>]\<close> is selector text of the modelled form), and one or more install calls
  with that key, where for an extension key the runtime node or the extension's own
  node is already known (in the registry or below the root). Then every call returns
  the same node \<open>e\<close>; \<open>e\<close> is below the root, carries the marker of the key and is
  recorded under the key. The first call inserts one node when no node carried the
  marker, and inserts nothing when a node was found (registered or server-rendered,
  then adopted): the number of nodes with the marker goes from 0 to 1 and otherwise
  stays as it was. The root after all the calls is the root after the first call: later
  calls insert nothing and change neither a node nor the registry. A further call with a
  callback, through \<open>installStylesForDoc\<close> or through \<open>installStylesLegacy\<close>, returns
  \<open>e\<close>, leaves the root alone, and still takes \<open>e\<close> to the readiness check: the callback
  has run with \<open>e\<close> if the style sheet list has an entry owned by \<open>e\<close>, and a timer with
  delay 4 polls for \<open>e\<close> otherwise.
\<close>

theorem keyed_installs_share_one_node:
  assumes "registry_ok r" and "calls \<noteq> []"
    and "list_all (\<lambda>(cssText, isRuntimeCss, ext). style_key isRuntimeCss ext = Some key) calls"
    and "plain_key key"
    and "key = ''amp-runtime'' \<or> known r key \<or> known r ''amp-runtime''"
  shows "case install_all r calls of
           (ress, r') \<Rightarrow>
             (\<exists>e. ress = replicate (length calls) (Inr e) \<and>
                e \<in> set (descendants (childNodes r')) \<and> selector_matches key e \<and>
                the_style_map r' key = Some e \<and>
                marked_count r' key = (if marked_count r key = 0 then 1 else marked_count r key) \<and>
                r' = snd (install_all r [hd calls]) \<and>
                (known r key \<longrightarrow> childNodes r' = childNodes r) \<and>
                (\<forall>sheets cb cssText rt ext.
                   style_key (or_false rt) (or_null ext) = Some key \<longrightarrow>
                   installStylesForDoc \<lparr>headNode = r', rootSheets = sheets\<rparr> cssText cb rt ext =
                     (Inr e, \<lparr>headNode = r', rootSheets = sheets\<rparr>,
                      if cb then
                        (if listed sheets e then \<lparr>cb_calls = [e], interval = None\<rparr>
                         else \<lparr>cb_calls = [], interval = Some (4, e)\<rparr>)
                      else \<lparr>cb_calls = [], interval = None\<rparr>) \<and>
                   installStylesLegacy \<lparr>doc_head = Some r', doc_styleSheets = sheets\<rparr> cssText cb rt ext =
                     (Inr e, \<lparr>doc_head = Some r', doc_styleSheets = sheets\<rparr>,
                      if cb then
                        (if listed sheets e then \<lparr>cb_calls = [e], interval = None\<rparr>
                         else \<lparr>cb_calls = [], interval = Some (4, e)\<rparr>)
                      else \<lparr>cb_calls = [], interval = None\<rparr>)))"
proof -
  from assms(2) obtain c rest where calls: "calls = c # rest" by (cases calls) auto
  obtain css rt ext where c: "c = (css, rt, ext)" by (cases c) auto
  from assms(3) calls c have k: "style_key rt ext = Some key"
    and rest: "list_all (\<lambda>(cssText, isRuntimeCss, ext). style_key isRuntimeCss ext = Some key) rest"
    by simp_all
  from first_keyed_install [OF assms(1) k assms(4,5), of css] obtain e r1 where
    one: "insertStyleElement r css rt ext = (Inr e, r1)" "e \<in> set (descendants (childNodes r1))"
      "selector_matches key e" "the_style_map r1 key = Some e"
      "marked_count r1 key = (if marked_count r key = 0 then 1 else marked_count r key)"
      "known r key \<longrightarrow> childNodes r1 = childNodes r" "style_map r1 \<noteq> None"
    by blast
  have all: "install_all r calls = (replicate (length calls) (Inr e), r1)"
    using calls c one(1) repeat_keyed_installs [OF one(4,7) rest] by simp
  have first: "snd (install_all r [hd calls]) = r1"
    using calls c one(1) by simp
  have again: "installStylesForDoc \<lparr>headNode = r1, rootSheets = sheets\<rparr> cssText cb rt' ext' =
       (Inr e, \<lparr>headNode = r1, rootSheets = sheets\<rparr>,
        if cb then
          (if listed sheets e then \<lparr>cb_calls = [e], interval = None\<rparr>
           else \<lparr>cb_calls = [], interval = Some (4, e)\<rparr>)
        else \<lparr>cb_calls = [], interval = None\<rparr>)"
    if "style_key (or_false rt') (or_null ext') = Some key" for sheets cb cssText rt' ext'
    using insert_registered [OF that one(4,7)]
    by (simp add: installStylesForDoc_def notify_when_loaded_listed)
  have legacy: "installStylesLegacy \<lparr>doc_head = Some r1, doc_styleSheets = sheets\<rparr> cssText cb rt' ext' =
       (Inr e, \<lparr>doc_head = Some r1, doc_styleSheets = sheets\<rparr>,
        if cb then
          (if listed sheets e then \<lparr>cb_calls = [e], interval = None\<rparr>
           else \<lparr>cb_calls = [], interval = Some (4, e)\<rparr>)
        else \<lparr>cb_calls = [], interval = None\<rparr>)"
    if "style_key (or_false rt') (or_null ext') = Some key" for sheets cb cssText rt' ext'
    using insert_registered [OF that one(4,7)]
    by (simp add: installStylesLegacy_def notify_when_loaded_listed)
  show ?thesis
    unfolding all prod.case
    using one(2-6) first again legacy by (intro exI [of _ e]) simp
qed

theorem keyed_installs_share_one_node_witness:
  "registry_ok ssr_head \<and> plain_key ''amp-extension=amp-foo'' \<and> known ssr_head ''amp-runtime'' \<and>
   map (map_sum id nid) (fst (install_all ssr_head two_ext_calls)) = [Inr 2, Inr 2] \<and>
   map nid (childNodes (snd (install_all ssr_head two_ext_calls))) = [0, 1, 2] \<and>
   marked_count (snd (install_all ssr_head two_ext_calls)) ''amp-extension=amp-foo'' = 1"
proof -
  have h1: "registry_ok ssr_head"
    by (simp add: registry_ok_def ssr_head_def the_style_map_def)
  have h2: "two_ext_calls \<noteq> []"
    by (simp add: two_ext_calls_def)
  have h3: "list_all (\<lambda>(cssText, isRuntimeCss, ext).
      style_key isRuntimeCss ext = Some ''amp-extension=amp-foo'') two_ext_calls"
    by (simp add: two_ext_calls_def style_key_def isExtCss_of_def truthy_def str_of_def)
  have h4: "plain_key ''amp-extension=amp-foo''"
    by (simp add: plain_key_def parse_key_def css_ident_def ident_start_def ident_char_def)
  have h5: "known ssr_head ''amp-runtime''"
    by (simp add: known_def ssr_head_def ssr_runtime_def meta_node_def eval_defs)
  have h6: "marked_count ssr_head ''amp-extension=amp-foo'' = 0"
    by (simp add: marked_count_def ssr_head_def ssr_runtime_def meta_node_def
        selector_matches_def parse_key_def css_ident_def ident_start_def ident_char_def)
  have v: "map nid (childNodes (snd (install_all ssr_head two_ext_calls))) = [0, 1, 2]"
    "map (map_sum id nid) (fst (install_all ssr_head two_ext_calls)) = [Inr 2, Inr 2]"
    by (simp_all add: two_ext_calls_def ssr_head_def ssr_runtime_def meta_node_def eval_defs)
  from keyed_installs_share_one_node [OF h1 h2 h3 h4 disjI2 [OF disjI2 [OF h5]]] h1 h4 h5 h6 v
  show ?thesis
    by (auto simp: case_prod_beta)
qed

text \<open>
  The claim as stated fails in three ways. On an empty root the key
  \<open>amp-extension=amp-foo\<close> is not null, both calls raise the assertion of the runtime
  lookup, and no style node exists. On a head with the runtime style, the calls for the
  extension \<open>amp-foo-0.1\<close> raise the \<open>SyntaxError\<close> of \<open>querySelector\<close>, the text
  \<open>style[amp-extension=amp-foo-0.1]\<close> being no selector, and no node is created. On a
  head where the server rendered two runtime styles, the calls return the first and two
  nodes with the marker exist.
\<close>

theorem keyed_installs_counterexample:
  "style_key False (Some ''amp-foo'') = Some ''amp-extension=amp-foo'' \<and>
   fst (install_all empty_head two_ext_calls) =
     [Inl (AssertionError ''Element expected''), Inl (AssertionError ''Element expected'')] \<and>
   childNodes (snd (install_all empty_head two_ext_calls)) = [] \<and>
   known ssr_head ''amp-runtime'' \<and>
   fst (install_all ssr_head dotted_ext_calls) =
     [Inl (SyntaxError ''style[amp-extension=amp-foo-0.1]''),
      Inl (SyntaxError ''style[amp-extension=amp-foo-0.1]'')] \<and>
   childNodes (snd (install_all ssr_head dotted_ext_calls)) = [meta_node, ssr_runtime] \<and>
   fst (install_all twice_rendered_head [(''r{}'', True, None), (''r{}'', True, None)]) =
     [Inr ssr_runtime, Inr ssr_runtime] \<and>
   marked_count (snd (install_all twice_rendered_head [(''r{}'', True, None), (''r{}'', True, None)]))
     ''amp-runtime'' = 2"
proof -
  have a: "style_key False (Some ''amp-foo'') = Some ''amp-extension=amp-foo''"
    by (simp add: style_key_def isExtCss_of_def truthy_def str_of_def)
  have b: "fst (install_all empty_head two_ext_calls) =
     [Inl (AssertionError ''Element expected''), Inl (AssertionError ''Element expected'')]"
    "childNodes (snd (install_all empty_head two_ext_calls)) = []"
    by (simp_all add: two_ext_calls_def empty_head_def eval_defs)
  have c: "known ssr_head ''amp-runtime''"
    by (simp add: known_def ssr_head_def ssr_runtime_def meta_node_def eval_defs)
  have d: "fst (install_all ssr_head dotted_ext_calls) =
     [Inl (SyntaxError ''style[amp-extension=amp-foo-0.1]''),
      Inl (SyntaxError ''style[amp-extension=amp-foo-0.1]'')]"
    "childNodes (snd (install_all ssr_head dotted_ext_calls)) = [meta_node, ssr_runtime]"
    by (simp_all add: dotted_ext_calls_def ssr_head_def ssr_runtime_def meta_node_def eval_defs)
  have e: "fst (install_all twice_rendered_head [(''r{}'', True, None), (''r{}'', True, None)]) =
     [Inr ssr_runtime, Inr ssr_runtime]"
    "marked_count (snd (install_all twice_rendered_head [(''r{}'', True, None), (''r{}'', True, None)]))
       ''amp-runtime'' = 2"
    by (simp_all add: twice_rendered_head_def second_runtime_def ssr_runtime_def meta_node_def
        marked_count_def selector_matches_def eval_defs)
  from a b c d e show ?thesis by simp
qed

subsection \<open>An extension style without the runtime style\<close>

text \<open>
  Claim C7, as amended. On a root where no runtime style node is known (neither in the
  registry nor below the root), an extension install never inserts a node: the children
  are as before. What the call does follows the lookup for the extension's own key,
  which comes first. If the name is an identifier and the extension's node is not known
  either, the call raises the assertion of the runtime lookup and leaves the registry
  as it was. If the extension's node is already known (registered or server-rendered),
  the call returns that node without raising. If the name is no identifier and the
  engine rejects the selector text, the call throws the engine's \<open>SyntaxError\<close> before
  the runtime lookup is made.
\<close>

theorem extension_without_runtime:
  assumes "style_key False ext = Some key" and "\<not> known r ''amp-runtime''"
  shows "case insertStyleElement r cssText False ext of
           (res, r') \<Rightarrow>
             childNodes r' = childNodes r \<and>
             (case fst (getExistingStyleElement r key) of
                Inl x \<Rightarrow> res = Inl x \<and> the_style_map r' = the_style_map r
              | Inr None \<Rightarrow> res = Inl (AssertionError ''Element expected'') \<and>
                             the_style_map r' = the_style_map r
              | Inr (Some e) \<Rightarrow> res = Inr e) \<and>
             (css_ident (str_of ext) \<and> \<not> known r key \<longrightarrow>
                res = Inl (AssertionError ''Element expected''))"
proof -
  from assms(2) runtime_lookup_cases [of r]
  have rt: "fst (getExistingStyleElement r ''amp-runtime'') = Inr None"
    by (auto simp: known_iff)
  from assms(1) have k: "key = ''amp-extension='' @ str_of ext"
    using style_key_extension [of False ext key] by simp
  have id: "fst (getExistingStyleElement r key) = Inr None"
    if "css_ident (str_of ext) \<and> \<not> known r key"
    using that unknown_plain [of key r] k by (simp only: plain_key_extension) simp
  show ?thesis
  proof (cases "fst (getExistingStyleElement r key)")
    case (Inl x)
    from insert_throws [OF assms(1) Inl, of cssText] Inl id show ?thesis
      by auto
  next
    case (Inr found)
    show ?thesis
    proof (cases found)
      case None
      with Inr insert_extension_fails [OF assms(1) _ rt, of cssText] show ?thesis
        by simp
    next
      case (Some e)
      with Inr insert_known [OF assms(1), of r e cssText] id show ?thesis
        by auto
    qed
  qed
qed

theorem extension_without_runtime_witness:
  "style_key False (Some ''amp-foo'') = Some ''amp-extension=amp-foo'' \<and>
   \<not> known head_with_meta ''amp-runtime'' \<and> css_ident ''amp-foo'' \<and>
   \<not> known head_with_meta ''amp-extension=amp-foo'' \<and>
   fst (insertStyleElement head_with_meta ''a{}'' False (Some ''amp-foo'')) =
     Inl (AssertionError ''Element expected'') \<and>
   childNodes (snd (insertStyleElement head_with_meta ''a{}'' False (Some ''amp-foo''))) = [meta_node]"
proof -
  have h1: "style_key False (Some ''amp-foo'') = Some ''amp-extension=amp-foo''"
    by (simp add: style_key_def isExtCss_of_def truthy_def str_of_def)
  have h2: "\<not> known head_with_meta ''amp-runtime''"
    by (simp add: known_def head_with_meta_def meta_node_def eval_defs)
  have h3: "css_ident ''amp-foo''"
    by (simp add: css_ident_def ident_start_def ident_char_def)
  have h4: "\<not> known head_with_meta ''amp-extension=amp-foo''"
    by (simp add: known_def head_with_meta_def meta_node_def eval_defs)
  from extension_without_runtime [OF h1 h2, of "''a{}''"] h1 h2 h3 h4 show ?thesis
    by (auto simp: head_with_meta_def str_of_def split: prod.splits)
qed

text \<open>
  The claim as stated fails in two ways. Where the server rendered the extension's style
  and no runtime style, the install call returns the rendered node and raises nothing.
  Where the extension's name is no identifier, here \<open>amp-foo-0.1\<close>, the call throws the
  \<open>SyntaxError\<close> of the first lookup and never reaches the assertion.
\<close>

theorem extension_already_rendered_counterexample:
  "\<not> known ssr_extension_head ''amp-runtime'' \<and>
   the_style_map ssr_extension_head ''amp-runtime'' = None \<and>
   querySelector ssr_extension_head ''amp-runtime'' = Inr None \<and>
   fst (insertStyleElement ssr_extension_head ''a{}'' False (Some ''amp-foo'')) = Inr ssr_extension \<and>
   \<not> known head_with_meta ''amp-runtime'' \<and>
   fst (insertStyleElement head_with_meta ''a{}'' False (Some ''amp-foo-0.1'')) =
     Inl (SyntaxError ''style[amp-extension=amp-foo-0.1]'')"
  by (simp add: known_def ssr_extension_head_def ssr_extension_def head_with_meta_def
      meta_node_def eval_defs)

subsection \<open>The order of the children\<close>

lemma insert_after_split:
  "a \<in> set cs \<Longrightarrow> distinct (map nid cs) \<Longrightarrow>
     \<exists>xs ys. cs = xs @ a # ys \<and> insert_after s a cs = xs @ a # s # ys"
proof (induction cs)
  case Nil
  then show ?case by simp
next
  case (Cons c cs)
  show ?case
  proof (cases "nid c = nid a")
    case True
    with Cons.prems have "c = a" by (auto simp: image_iff)
    then have "c # cs = [] @ a # cs \<and> insert_after s a (c # cs) = [] @ a # s # cs"
      by simp
    then show ?thesis by blast
  next
    case False
    with Cons obtain xs ys where "cs = xs @ a # ys" "insert_after s a cs = xs @ a # s # ys"
      by auto
    with False have "c # cs = (c # xs) @ a # ys \<and> insert_after s a (c # cs) = (c # xs) @ a # s # ys"
      by simp
    then show ?thesis by blast
  qed
qed

lemma split_unique:
  "distinct cs \<Longrightarrow> cs = xs @ a # ys \<Longrightarrow> cs = xs' @ a # ys' \<Longrightarrow> xs = xs' \<and> ys = ys'"
proof -
  assume d: "distinct cs" and 1: "cs = xs @ a # ys" and 2: "cs = xs' @ a # ys'"
  from d 1 have n1: "a \<notin> set xs" "a \<notin> set ys" by auto
  from d 2 have n2: "a \<notin> set xs'" "a \<notin> set ys'" by auto
  from 1 n1 have t1: "takeWhile (\<lambda>x. x \<noteq> a) cs = xs"
    by (auto simp: takeWhile_tail takeWhile_eq_all_conv)
  from 2 n2 have t2: "takeWhile (\<lambda>x. x \<noteq> a) cs = xs'"
    by (auto simp: takeWhile_tail takeWhile_eq_all_conv)
  from t1 t2 have "xs = xs'" by simp
  with 1 2 show ?thesis by simp
qed

lemma new_runtime_kind:
  "is_runtime (new_style r css [(''amp-runtime'', v)])"
  "\<not> is_extension (new_style r css [(''amp-runtime'', v)])"
  by (simp_all add: is_runtime_def is_extension_def selector_matches_def)

lemma new_extension_kind:
  "is_extension (new_style r css [(''amp-extension'', x)])"
  "\<not> is_runtime (new_style r css [(''amp-extension'', x)])"
  by (simp_all add: is_runtime_def is_extension_def selector_matches_def)

lemma new_uncached_kind:
  assumes "style_key rt ext = None"
  shows "\<not> is_runtime (new_style r css (if truthy ext then [(str_of ext, [])] else []))"
    and "\<not> is_extension (new_style r css (if truthy ext then [(str_of ext, [])] else []))"
  using assms
  by (auto simp: style_key_None_iff is_runtime_def is_extension_def selector_matches_def str_of_def)

lemma registry_kept_by_lookup:
  "the_style_map r k0 = Some a \<Longrightarrow> the_style_map (snd (getExistingStyleElement r k)) k0 = Some a"
  by (auto simp: getExisting_cases split: option.splits sum.splits)

lemma no_runtime_below:
  "fst (getExistingStyleElement r ''amp-runtime'') = Inr None \<Longrightarrow>
     the_style_map r ''amp-runtime'' = None \<and>
     (\<forall>e\<in>set (descendants (childNodes r)). \<not> is_runtime e)"
  by (auto simp: getExisting_nothing_iff querySelector_plain_key find_None_iff is_runtime_def)

lemma keptI:
  assumes "registry_ok r" "dom_ok r" "runtime_on_top r" "next_nid r0 \<le> next_nid r"
    "\<And>c. c \<in> set (childNodes r) \<Longrightarrow> is_runtime c \<Longrightarrow> next_nid r0 \<le> nid c \<Longrightarrow>
        \<exists>rest. childNodes r = c # rest"
    "\<And>e. e \<in> set (childNodes r) \<Longrightarrow> is_extension e \<Longrightarrow> next_nid r0 \<le> nid e \<Longrightarrow>
        \<exists>a before after. the_style_map r ''amp-runtime'' = Some a \<and>
           childNodes r = before @ a # after \<and> e \<in> set after"
    "\<And>e. e \<in> set (childNodes r) \<Longrightarrow> nid e < next_nid r0 \<Longrightarrow> e \<in> set (childNodes r0)"
  shows "kept r0 r"
  using assms unfolding kept_def created_order_def by blast

lemma keptD:
  assumes "kept r0 r"
  shows "registry_ok r" "dom_ok r" "runtime_on_top r" "next_nid r0 \<le> next_nid r"
    "\<And>c. c \<in> set (childNodes r) \<Longrightarrow> is_runtime c \<Longrightarrow> next_nid r0 \<le> nid c \<Longrightarrow>
        \<exists>rest. childNodes r = c # rest"
    "\<And>e. e \<in> set (childNodes r) \<Longrightarrow> is_extension e \<Longrightarrow> next_nid r0 \<le> nid e \<Longrightarrow>
        \<exists>a before after. the_style_map r ''amp-runtime'' = Some a \<and>
           childNodes r = before @ a # after \<and> e \<in> set after"
    "\<And>e. e \<in> set (childNodes r) \<Longrightarrow> nid e < next_nid r0 \<Longrightarrow> e \<in> set (childNodes r0)"
  using assms unfolding kept_def created_order_def by blast+

lemma kept_refl:
  "registry_ok r \<Longrightarrow> dom_ok r \<Longrightarrow> runtime_on_top r \<Longrightarrow> kept r r"
  unfolding kept_def created_order_def dom_ok_def
  by (auto simp: list_all_iff)

lemma runtime_on_top_iff:
  "runtime_on_top r \<longleftrightarrow>
     (\<forall>e\<in>set (descendants (childNodes r)). is_runtime e \<longrightarrow> e \<in> set (childNodes r))"
  by (simp add: runtime_on_top_def list_all_iff)

lemma kept_same_nodes:
  assumes k: "kept r0 r" and c: "childNodes r' = childNodes r"
    and n: "next_nid r \<le> next_nid r'" and ok: "registry_ok r'"
    and m: "\<And>a. the_style_map r ''amp-runtime'' = Some a \<Longrightarrow> the_style_map r' ''amp-runtime'' = Some a"
  shows "kept r0 r'"
proof (rule keptI)
  show "registry_ok r'" by (rule ok)
  show "dom_ok r'" using keptD(2) [OF k] c n by (auto simp: dom_ok_def list_all_iff)
  show "runtime_on_top r'" using keptD(3) [OF k] c by (simp add: runtime_on_top_iff)
  show "next_nid r0 \<le> next_nid r'" using keptD(4) [OF k] n by simp
next
  fix x assume "x \<in> set (childNodes r')" "is_runtime x" "next_nid r0 \<le> nid x"
  with keptD(5) [OF k, of x] c show "\<exists>rest. childNodes r' = x # rest" by simp
next
  fix e assume "e \<in> set (childNodes r')" "is_extension e" "next_nid r0 \<le> nid e"
  with keptD(6) [OF k, of e] c obtain a before after where
    "the_style_map r ''amp-runtime'' = Some a" "childNodes r' = before @ a # after" "e \<in> set after"
    by auto
  with m [of a] show "\<exists>a before after. the_style_map r' ''amp-runtime'' = Some a \<and>
           childNodes r' = before @ a # after \<and> e \<in> set after" by blast
next
  fix e assume "e \<in> set (childNodes r')" "nid e < next_nid r0"
  with keptD(7) [OF k, of e] c show "e \<in> set (childNodes r0)" by simp
qed

lemma kept_uncached:
  assumes k: "kept r0 r" and key: "style_key rt ext = None"
  shows "kept r0 (snd (insertStyleElement r css rt ext))"
proof -
  let ?s = "new_style r css (if truthy ext then [(str_of ext, [])] else [])"
  from insert_uncached [OF key, of r css] obtain r' where
    r': "insertStyleElement r css rt ext = (Inr ?s, r')"
      "childNodes r' = insertAfterOrAtStart (childNodes r) ?s (lastChild r)"
      "next_nid r' = Suc (next_nid r)" "the_style_map r' = the_style_map r"
    by blast
  from keptD(2) [OF k] have dd: "distinct (map nid (childNodes r))"
    by (simp add: dom_ok_def)
  have c: "childNodes r' = childNodes r @ [?s]"
    using r'(2) append_at_end [OF dd] by simp
  have d: "descendants (childNodes r') = descendants (childNodes r) @ [?s]"
    by (simp add: c descendants_def)
  have "kept r0 r'"
  proof (rule keptI)
    show "registry_ok r'"
      using keptD(1) [OF k] r'(4) d by (auto simp: registry_ok_def)
    show "dom_ok r'"
      using keptD(2) [OF k] c r'(3) by (auto simp: dom_ok_def list_all_iff)
    show "runtime_on_top r'"
      using keptD(3) [OF k] c d new_uncached_kind(1) [OF key, of r css]
      by (auto simp: runtime_on_top_iff)
    show "next_nid r0 \<le> next_nid r'" using keptD(4) [OF k] r'(3) by simp
  next
    fix x assume x: "x \<in> set (childNodes r')" "is_runtime x" "next_nid r0 \<le> nid x"
    with new_uncached_kind(1) [OF key, of r css] c have "x \<in> set (childNodes r)" by auto
    from keptD(5) [OF k this x(2,3)] c show "\<exists>rest. childNodes r' = x # rest" by auto
  next
    fix e assume e: "e \<in> set (childNodes r')" "is_extension e" "next_nid r0 \<le> nid e"
    with new_uncached_kind(2) [OF key, of r css] c have "e \<in> set (childNodes r)" by auto
    from keptD(6) [OF k this e(2,3)] obtain a before after where
      "the_style_map r ''amp-runtime'' = Some a" "childNodes r = before @ a # after" "e \<in> set after"
      by blast
    then have "the_style_map r' ''amp-runtime'' = Some a \<and>
        childNodes r' = before @ a # (after @ [?s]) \<and> e \<in> set (after @ [?s])"
      using c r'(4) by simp
    then show "\<exists>a before after. the_style_map r' ''amp-runtime'' = Some a \<and>
           childNodes r' = before @ a # after \<and> e \<in> set after" by blast
  next
    fix e assume e: "e \<in> set (childNodes r')" "nid e < next_nid r0"
    with keptD(4) [OF k] c have "e \<in> set (childNodes r)" by auto
    from keptD(7) [OF k this e(2)] show "e \<in> set (childNodes r0)" .
  qed
  with r'(1) show ?thesis by simp
qed

lemma kept_throws:
  assumes k: "kept r0 r" and key: "style_key rt ext = Some key"
    and l: "fst (getExistingStyleElement r key) = Inl x"
  shows "kept r0 (snd (insertStyleElement r css rt ext))"
proof -
  have "kept r0 (ensure_style_map r)"
    by (rule kept_same_nodes [OF k]) (simp_all add: keptD(1) [OF k])
  with insert_throws [OF key l, of css] show ?thesis by simp
qed

lemma kept_known:
  assumes k: "kept r0 r" and key: "style_key rt ext = Some key"
    and l: "fst (getExistingStyleElement r key) = Inr (Some e)"
  shows "kept r0 (snd (insertStyleElement r css rt ext))"
proof -
  let ?g = "snd (getExistingStyleElement (ensure_style_map r) key)"
  have "kept r0 ?g"
  proof (rule kept_same_nodes [OF k])
    show "registry_ok ?g"
      using registry_ok_getExisting [of "ensure_style_map r" key] keptD(1) [OF k] by simp
    fix a assume "the_style_map r ''amp-runtime'' = Some a"
    then show "the_style_map ?g ''amp-runtime'' = Some a"
      using registry_kept_by_lookup [of "ensure_style_map r" "''amp-runtime''" a key] by simp
  qed simp_all
  with insert_known [OF key l, of css] show ?thesis by simp
qed

lemma kept_fails:
  assumes k: "kept r0 r" and key: "style_key False ext = Some key"
    and l: "fst (getExistingStyleElement r key) = Inr None"
    and a: "fst (getExistingStyleElement r ''amp-runtime'') = Inr None"
  shows "kept r0 (snd (insertStyleElement r css False ext))"
proof -
  have "kept r0 ((ensure_style_map r)\<lparr>next_nid := Suc (next_nid r)\<rparr>)"
    by (rule kept_same_nodes [OF k]) (simp_all add: keptD(1) [OF k])
  with insert_extension_fails [OF key l a, of css] show ?thesis by simp
qed

lemma kept_runtime_new:
  assumes k: "kept r0 r" and l: "fst (getExistingStyleElement r ''amp-runtime'') = Inr None"
  shows "kept r0 (snd (insertStyleElement r css True ext))"
proof -
  let ?s = "new_style r css [(''amp-runtime'', [])]"
  from insert_runtime_new [OF l, of css ext] obtain r' where
    r': "insertStyleElement r css True ext = (Inr ?s, r')" "childNodes r' = ?s # childNodes r"
      "the_style_map r' = (the_style_map r)(''amp-runtime'' \<mapsto> ?s)"
      "next_nid r' = Suc (next_nid r)"
    by blast
  from no_runtime_below [OF l] have nomap: "the_style_map r ''amp-runtime'' = None"
    and nort: "\<And>e. e \<in> set (descendants (childNodes r)) \<Longrightarrow> \<not> is_runtime e"
    by blast+
  have d: "descendants (childNodes r') = ?s # descendants (childNodes r)"
    by (simp add: r'(2) descendants_def)
  have "kept r0 r'"
  proof (rule keptI)
    show "registry_ok r'"
      using keptD(1) [OF k] r'(3) d new_runtime_matches [of r css "[]"]
      by (auto simp: registry_ok_def)
    show "dom_ok r'"
      using keptD(2) [OF k] r'(2,4) by (auto simp: dom_ok_def list_all_iff)
    show "runtime_on_top r'"
      using keptD(3) [OF k] r'(2) d by (auto simp: runtime_on_top_iff)
    show "next_nid r0 \<le> next_nid r'" using keptD(4) [OF k] r'(4) by simp
  next
    fix x assume x: "x \<in> set (childNodes r')" "is_runtime x" "next_nid r0 \<le> nid x"
    with nort [of x] r'(2) have "x = ?s" by (auto dest: child_is_descendant)
    with r'(2) show "\<exists>rest. childNodes r' = x # rest" by simp
  next
    fix e assume e: "e \<in> set (childNodes r')" "is_extension e" "next_nid r0 \<le> nid e"
    with new_runtime_kind(2) [of r css "[]"] r'(2) have "e \<in> set (childNodes r)" by auto
    from keptD(6) [OF k this e(2,3)] nomap
    show "\<exists>a before after. the_style_map r' ''amp-runtime'' = Some a \<and>
           childNodes r' = before @ a # after \<and> e \<in> set after" by simp
  next
    fix e assume e: "e \<in> set (childNodes r')" "nid e < next_nid r0"
    with keptD(4) [OF k] r'(2) have "e \<in> set (childNodes r)" by auto
    from keptD(7) [OF k this e(2)] show "e \<in> set (childNodes r0)" .
  qed
  with r'(1) show ?thesis by simp
qed

lemma extension_placed:
  assumes ok: "registry_ok r" and dom: "dom_ok r" and top: "runtime_on_top r"
    and key: "style_key False ext = Some key"
    and l: "fst (getExistingStyleElement r key) = Inr None"
    and a: "fst (getExistingStyleElement r ''amp-runtime'') = Inr (Some a)"
  shows "\<exists>r' before after. insertStyleElement r css False ext =
            (Inr (new_style r css [(''amp-extension'', str_of ext)]), r') \<and>
          childNodes r = before @ a # after \<and>
          childNodes r' = before @ a # new_style r css [(''amp-extension'', str_of ext)] # after \<and>
          the_style_map r' = (the_style_map r)(''amp-runtime'' \<mapsto> a,
              key \<mapsto> new_style r css [(''amp-extension'', str_of ext)]) \<and>
          next_nid r' = Suc (next_nid r) \<and> is_runtime a"
proof -
  let ?s = "new_style r css [(''amp-extension'', str_of ext)]"
  from insert_extension_new [OF key l a, of css] obtain r' where
    r': "insertStyleElement r css False ext = (Inr ?s, r')"
      "childNodes r' = insert_after ?s a (childNodes r)"
      "the_style_map r' = (the_style_map r)(''amp-runtime'' \<mapsto> a, key \<mapsto> ?s)"
      "next_nid r' = Suc (next_nid r)"
    by blast
  from getExisting_sound [OF ok a]
  have am: "a \<in> set (descendants (childNodes r))" "is_runtime a"
    by (simp_all add: is_runtime_def)
  with top have "a \<in> set (childNodes r)" by (simp add: runtime_on_top_iff)
  moreover from dom have "distinct (map nid (childNodes r))" by (simp add: dom_ok_def)
  ultimately obtain xs ys where
    "childNodes r = xs @ a # ys" "insert_after ?s a (childNodes r) = xs @ a # ?s # ys"
    using insert_after_split [of a "childNodes r" ?s] by blast
  with r' am(2) show ?thesis by auto
qed

lemma kept_extension_new:
  assumes k: "kept r0 r" and key: "style_key False ext = Some key"
    and l: "fst (getExistingStyleElement r key) = Inr None"
    and a: "fst (getExistingStyleElement r ''amp-runtime'') = Inr (Some a)"
  shows "kept r0 (snd (insertStyleElement r css False ext))"
proof -
  let ?s = "new_style r css [(''amp-extension'', str_of ext)]"
  from extension_placed [OF keptD(1-3) [OF k] key l a, of css] obtain r' xs ys where
    r': "insertStyleElement r css False ext = (Inr ?s, r')"
      "childNodes r = xs @ a # ys" "childNodes r' = xs @ a # ?s # ys"
      "the_style_map r' = (the_style_map r)(''amp-runtime'' \<mapsto> a, key \<mapsto> ?s)"
      "next_nid r' = Suc (next_nid r)" "is_runtime a"
    by blast
  from key have kx: "key = ''amp-extension='' @ str_of ext" and ne: "key \<noteq> ''amp-runtime''"
    using style_key_extension [of False ext key] by auto
  have sm: "plain_key key \<Longrightarrow> selector_matches key ?s"
  proof -
    assume "plain_key key"
    with kx have "css_ident (str_of ext)" by (simp only: plain_key_extension)
    from new_extension_matches [OF this, of r css] kx show ?thesis by simp
  qed
  have ds: "set (descendants (childNodes r')) = insert ?s (set (descendants (childNodes r)))"
    by (auto simp: r'(2,3) descendants_def)
  have cs: "set (childNodes r') = insert ?s (set (childNodes r))"
    by (auto simp: r'(2,3))
  from getExisting_sound [OF keptD(1) [OF k] a]
  have am: "a \<in> set (descendants (childNodes r))" "selector_matches ''amp-runtime'' a"
    by simp_all
  from keptD(2) [OF k] have dist: "distinct (childNodes r)"
    by (auto simp: dom_ok_def distinct_map)
  have "kept r0 r'"
  proof (rule keptI)
    show "registry_ok r'"
      unfolding registry_ok_def ds r'(4)
      using keptD(1) [OF k] sm am by (auto simp: registry_ok_def)
    show "dom_ok r'"
      using keptD(2) [OF k] r'(2,3,5)
      by (auto simp: dom_ok_def list_all_iff less_Suc_eq image_iff)
    show "runtime_on_top r'"
      using keptD(3) [OF k] new_extension_kind(2) [of r css "str_of ext"]
      unfolding runtime_on_top_iff ds cs by auto
    show "next_nid r0 \<le> next_nid r'" using keptD(4) [OF k] r'(5) by simp
  next
    fix x assume x: "x \<in> set (childNodes r')" "is_runtime x" "next_nid r0 \<le> nid x"
    with new_extension_kind(2) [of r css "str_of ext"] cs have "x \<in> set (childNodes r)" by auto
    from keptD(5) [OF k this x(2,3)] obtain rest where rest: "childNodes r = x # rest" by blast
    show "\<exists>rest. childNodes r' = x # rest"
    proof (cases xs)
      case Nil
      with rest r'(2,3) show ?thesis by simp
    next
      case (Cons y xs')
      with rest r'(2,3) show ?thesis by simp
    qed
  next
    fix e assume e: "e \<in> set (childNodes r')" "is_extension e" "next_nid r0 \<le> nid e"
    have m: "the_style_map r' ''amp-runtime'' = Some a" using r'(4) ne by simp
    show "\<exists>a before after. the_style_map r' ''amp-runtime'' = Some a \<and>
           childNodes r' = before @ a # after \<and> e \<in> set after"
    proof (cases "e = ?s")
      case True
      with m r'(3) have "the_style_map r' ''amp-runtime'' = Some a \<and>
           childNodes r' = xs @ a # (?s # ys) \<and> e \<in> set (?s # ys)" by simp
      then show ?thesis by blast
    next
      case False
      with e(1) cs have "e \<in> set (childNodes r)" by auto
      from keptD(6) [OF k this e(2,3)] obtain a0 before after where
        o: "the_style_map r ''amp-runtime'' = Some a0" "childNodes r = before @ a0 # after"
          "e \<in> set after"
        by blast
      from getExisting_registered [OF o(1)] a have "a0 = a" by simp
      with o(2) r'(2) dist split_unique [of "childNodes r" xs a ys before after]
      have "after = ys" by simp
      with o(3) m r'(3) have "the_style_map r' ''amp-runtime'' = Some a \<and>
           childNodes r' = xs @ a # (?s # ys) \<and> e \<in> set (?s # ys)" by simp
      then show ?thesis by blast
    qed
  next
    fix e assume e: "e \<in> set (childNodes r')" "nid e < next_nid r0"
    with keptD(4) [OF k] cs have "e \<in> set (childNodes r)" by auto
    from keptD(7) [OF k this e(2)] show "e \<in> set (childNodes r0)" .
  qed
  with r'(1) show ?thesis by simp
qed

lemma kept_step:
  assumes k: "kept r0 r"
  shows "kept r0 (snd (insertStyleElement r css rt ext))"
proof (cases "style_key rt ext")
  case None
  from kept_uncached [OF k this] show ?thesis .
next
  case (Some key)
  from lookup_cases [of r key] show ?thesis
  proof (elim disjE exE)
    fix x assume "fst (getExistingStyleElement r key) = Inl x"
    from kept_throws [OF k Some this] show ?thesis .
  next
    fix e assume "fst (getExistingStyleElement r key) = Inr (Some e)"
    from kept_known [OF k Some this] show ?thesis .
  next
    assume l: "fst (getExistingStyleElement r key) = Inr None"
    show ?thesis
    proof (cases rt)
      case True
      with Some have "key = ''amp-runtime''" by (simp add: style_key_def)
      with l True kept_runtime_new [OF k, of css ext] show ?thesis by simp
    next
      case False
      from runtime_lookup_cases [of r] show ?thesis
      proof (elim disjE exE)
        assume "fst (getExistingStyleElement r ''amp-runtime'') = Inr None"
        from kept_fails [OF k _ l this, of ext css] Some False show ?thesis by simp
      next
        fix a assume "fst (getExistingStyleElement r ''amp-runtime'') = Inr (Some a)"
        from kept_extension_new [OF k _ l this, of ext css] Some False show ?thesis by simp
      qed
    qed
  qed
qed

lemma kept_install_all:
  "kept r0 r \<Longrightarrow> kept r0 (snd (install_all r calls))"
proof (induction calls arbitrary: r)
  case Nil
  then show ?case by simp
next
  case (Cons c calls)
  obtain css rt ext where c: "c = (css, rt, ext)" by (cases c) auto
  obtain res r1 where s: "insertStyleElement r css rt ext = (res, r1)"
    by (cases "insertStyleElement r css rt ext")
  from kept_step [OF Cons.prems, of css rt ext] s have "kept r0 r1" by simp
  from Cons.IH [OF this] c s show ?case
    by (simp add: case_prod_beta)
qed

text \<open>
  Claim C2, as amended. Take any root with a consistent registry and distinct node
  identities whose runtime style nodes, if the server rendered any, are children of
  the root. After any sequence of install calls, failed ones included: every runtime
  style node that an install created is the first child of the root; every extension
  style node that an install created comes after the runtime style node of the
  registry; and the children that the root had before are the only other children.
  So on a root that had no runtime or extension style node to begin with, these hold
  of all its runtime and extension style nodes. A runtime install that finds no
  runtime style node puts its node in front of all children. An extension install
  that finds no node of its own and finds the runtime node \<open>a\<close> puts its node
  immediately after \<open>a\<close>, wherever \<open>a\<close> stands. A server-rendered node that an install
  adopts stays where the server put it.
\<close>

theorem installs_keep_created_order:
  assumes "registry_ok r" and "dom_ok r" and "runtime_on_top r"
  shows "(case install_all r calls of
            (ress, r') \<Rightarrow>
              created_order (next_nid r) r' \<and>
              (\<forall>e\<in>set (childNodes r'). nid e < next_nid r \<longrightarrow> e \<in> set (childNodes r)) \<and>
              (list_all (\<lambda>e. \<not> is_runtime e \<and> \<not> is_extension e) (childNodes r) \<longrightarrow>
                 created_order 0 r') \<and>
              registry_ok r' \<and> dom_ok r' \<and> runtime_on_top r') \<and>
         (\<not> known r ''amp-runtime'' \<longrightarrow>
            (case insertStyleElement r cssText True ext of
               (res, r1) \<Rightarrow>
                 (\<exists>s. res = Inr s \<and> is_runtime s \<and> nid s = next_nid r \<and>
                    childNodes r1 = s # childNodes r))) \<and>
         (\<forall>key a. style_key False ext = Some key \<and>
                  fst (getExistingStyleElement r key) = Inr None \<and>
                  fst (getExistingStyleElement r ''amp-runtime'') = Inr (Some a) \<longrightarrow>
            (case insertStyleElement r cssText False ext of
               (res, r1) \<Rightarrow>
                 (\<exists>s before after. res = Inr s \<and> is_extension s \<and> nid s = next_nid r \<and>
                    is_runtime a \<and> childNodes r = before @ a # after \<and>
                    childNodes r1 = before @ a # s # after)))"
proof (intro conjI impI allI)
  obtain ress r' where i: "install_all r calls = (ress, r')"
    by (cases "install_all r calls")
  from kept_install_all [OF kept_refl [OF assms], of calls] i have k: "kept r r'" by simp
  have z: "created_order 0 r'"
    if u: "list_all (\<lambda>e. \<not> is_runtime e \<and> \<not> is_extension e) (childNodes r)"
    unfolding created_order_def
  proof (intro conjI ballI impI)
    fix c assume c: "c \<in> set (childNodes r')" "is_runtime c \<and> 0 \<le> nid c"
    show "\<exists>rest. childNodes r' = c # rest"
    proof (cases "nid c < next_nid r")
      case True
      from keptD(7) [OF k c(1) True] u c(2) show ?thesis by (auto simp: list_all_iff)
    next
      case False
      with keptD(5) [OF k c(1)] c(2) show ?thesis by simp
    qed
  next
    fix e assume e: "e \<in> set (childNodes r')" "is_extension e \<and> 0 \<le> nid e"
    show "\<exists>a before after. the_style_map r' ''amp-runtime'' = Some a \<and>
            childNodes r' = before @ a # after \<and> e \<in> set after"
    proof (cases "nid e < next_nid r")
      case True
      from keptD(7) [OF k e(1) True] u e(2) show ?thesis by (auto simp: list_all_iff)
    next
      case False
      with keptD(6) [OF k e(1)] e(2) show ?thesis by simp
    qed
  qed
  from k have "created_order (next_nid r) r'"
    "\<forall>e\<in>set (childNodes r'). nid e < next_nid r \<longrightarrow> e \<in> set (childNodes r)"
    "registry_ok r'" "dom_ok r'" "runtime_on_top r'"
    by (simp_all add: kept_def)
  with z i show "case install_all r calls of
            (ress, r') \<Rightarrow>
              created_order (next_nid r) r' \<and>
              (\<forall>e\<in>set (childNodes r'). nid e < next_nid r \<longrightarrow> e \<in> set (childNodes r)) \<and>
              (list_all (\<lambda>e. \<not> is_runtime e \<and> \<not> is_extension e) (childNodes r) \<longrightarrow>
                 created_order 0 r') \<and>
              registry_ok r' \<and> dom_ok r' \<and> runtime_on_top r'"
    by simp
next
  assume "\<not> known r ''amp-runtime''"
  with runtime_lookup_cases [of r]
  have "fst (getExistingStyleElement r ''amp-runtime'') = Inr None"
    by (auto simp: known_iff)
  from insert_runtime_new [OF this, of cssText ext] new_runtime_kind(1) [of r cssText "[]"]
  show "case insertStyleElement r cssText True ext of
          (res, r1) \<Rightarrow>
            (\<exists>s. res = Inr s \<and> is_runtime s \<and> nid s = next_nid r \<and>
               childNodes r1 = s # childNodes r)"
    by auto
next
  fix key a
  assume h: "style_key False ext = Some key \<and>
             fst (getExistingStyleElement r key) = Inr None \<and>
             fst (getExistingStyleElement r ''amp-runtime'') = Inr (Some a)"
  let ?s = "new_style r cssText [(''amp-extension'', str_of ext)]"
  from h extension_placed [OF assms, of ext key a cssText] obtain r' before after where
    "insertStyleElement r cssText False ext = (Inr ?s, r')"
    "childNodes r = before @ a # after" "childNodes r' = before @ a # ?s # after" "is_runtime a"
    by blast
  moreover have "is_extension ?s" "nid ?s = next_nid r"
    using new_extension_kind(1) [of r cssText "str_of ext"] by simp_all
  ultimately show "case insertStyleElement r cssText False ext of
          (res, r1) \<Rightarrow>
            (\<exists>s before after. res = Inr s \<and> is_extension s \<and> nid s = next_nid r \<and>
               is_runtime a \<and> childNodes r = before @ a # after \<and>
               childNodes r1 = before @ a # s # after)"
    by auto
qed

theorem installs_keep_created_order_witness:
  "registry_ok head_with_meta \<and> dom_ok head_with_meta \<and> runtime_on_top head_with_meta \<and>
   map (\<lambda>e. (nid e, is_runtime e, is_extension e))
       (childNodes (snd (install_all head_with_meta mixed_calls))) =
     [(2, True, False), (4, False, True), (3, False, True), (0, False, False),
      (1, False, False), (5, False, False)] \<and>
   created_order 0 (snd (install_all head_with_meta mixed_calls)) \<and>
   registry_ok ssr_head \<and> dom_ok ssr_head \<and> runtime_on_top ssr_head \<and>
   map nid (childNodes (snd (install_all ssr_head two_ext_calls))) = [0, 1, 2] \<and>
   created_order 2 (snd (install_all ssr_head two_ext_calls))"
proof -
  have h1: "registry_ok head_with_meta"
    by (simp add: registry_ok_fresh head_with_meta_def)
  have h2: "dom_ok head_with_meta"
    by (simp add: dom_ok_def head_with_meta_def meta_node_def)
  have h3: "runtime_on_top head_with_meta"
    by (simp add: runtime_on_top_def head_with_meta_def meta_node_def descendants_def
        is_runtime_def selector_matches_def)
  have u: "list_all (\<lambda>e. \<not> is_runtime e \<and> \<not> is_extension e) (childNodes head_with_meta)"
    by (simp add: head_with_meta_def meta_node_def is_runtime_def is_extension_def
        selector_matches_def)
  have c: "childNodes (snd (install_all head_with_meta mixed_calls)) =
      [Element 2 ''style'' [(''amp-runtime'', [])] ''r{}'' [],
       Element 4 ''style'' [(''amp-extension'', ''amp-bar'')] ''b{}'' [],
       Element 3 ''style'' [(''amp-extension'', ''amp-foo'')] ''f{}'' [],
       meta_node,
       Element 1 ''style'' [(''amp-custom'', [])] ''c{}'' [],
       Element 5 ''style'' [] ''u{}'' []]"
    by (simp add: mixed_calls_def head_with_meta_def meta_node_def eval_defs)
  have m: "map (\<lambda>e. (nid e, is_runtime e, is_extension e))
       (childNodes (snd (install_all head_with_meta mixed_calls))) =
     [(2, True, False), (4, False, True), (3, False, True), (0, False, False),
      (1, False, False), (5, False, False)]"
    unfolding c by (simp add: meta_node_def is_runtime_def is_extension_def selector_matches_def)
  have g1: "registry_ok ssr_head"
    by (simp add: registry_ok_fresh ssr_head_def)
  have g2: "dom_ok ssr_head"
    by (simp add: dom_ok_def ssr_head_def meta_node_def ssr_runtime_def)
  have g3: "runtime_on_top ssr_head"
    by (simp add: runtime_on_top_def ssr_head_def meta_node_def ssr_runtime_def descendants_def)
  have n: "map nid (childNodes (snd (install_all ssr_head two_ext_calls))) = [0, 1, 2]"
    by (simp add: two_ext_calls_def ssr_head_def ssr_runtime_def meta_node_def eval_defs)
  have n2: "next_nid ssr_head = 2" by (simp add: ssr_head_def)
  from installs_keep_created_order [OF h1 h2 h3, of mixed_calls]
    installs_keep_created_order [OF g1 g2 g3, of two_ext_calls]
    h1 h2 h3 u m g1 g2 g3 n n2 show ?thesis
    by (simp add: case_prod_beta)
qed

text \<open>
  The claim as stated fails on server-rendered heads. The runtime install adopts the
  rendered runtime style node where it stands: as the second child, after \<open>meta\<close>; after
  a rendered extension style node, which the extension install adopts in front of it; or
  below another element, where it is no child of the root at all.
\<close>

theorem adopted_nodes_keep_their_place_counterexample:
  "fst (insertStyleElement ssr_head ''r{}'' True None) = Inr ssr_runtime \<and>
   childNodes (snd (insertStyleElement ssr_head ''r{}'' True None)) = [meta_node, ssr_runtime] \<and>
   is_runtime ssr_runtime \<and> \<not> is_runtime meta_node \<and>
   fst (install_all extension_first_head
       [(''r{}'', True, None), (''a{}'', False, Some ''amp-foo'')]) =
     [Inr ssr_runtime, Inr ssr_extension] \<and>
   childNodes (snd (install_all extension_first_head
       [(''r{}'', True, None), (''a{}'', False, Some ''amp-foo'')])) = [ssr_extension, ssr_runtime] \<and>
   is_extension ssr_extension \<and>
   fst (insertStyleElement nested_runtime_head ''r{}'' True None) = Inr ssr_runtime \<and>
   childNodes (snd (insertStyleElement nested_runtime_head ''r{}'' True None)) = [wrapper_node] \<and>
   ssr_runtime \<noteq> wrapper_node"
proof -
  have a: "fst (insertStyleElement ssr_head ''r{}'' True None) = Inr ssr_runtime"
    by (simp add: ssr_head_def ssr_runtime_def meta_node_def eval_defs)
  have b: "childNodes (snd (insertStyleElement ssr_head ''r{}'' True None)) = [meta_node, ssr_runtime]"
    by (simp add: ssr_head_def ssr_runtime_def meta_node_def eval_defs)
  have c: "is_runtime ssr_runtime" "\<not> is_runtime meta_node" "is_extension ssr_extension"
    "ssr_runtime \<noteq> wrapper_node"
    by (simp_all add: is_runtime_def is_extension_def ssr_runtime_def ssr_extension_def
        meta_node_def wrapper_node_def selector_matches_def)
  have d: "fst (install_all extension_first_head
       [(''r{}'', True, None), (''a{}'', False, Some ''amp-foo'')]) = [Inr ssr_runtime, Inr ssr_extension]"
    by (simp add: extension_first_head_def ssr_runtime_def ssr_extension_def eval_defs)
  have e: "childNodes (snd (install_all extension_first_head
       [(''r{}'', True, None), (''a{}'', False, Some ''amp-foo'')])) = [ssr_extension, ssr_runtime]"
    by (simp add: extension_first_head_def ssr_runtime_def ssr_extension_def eval_defs)
  have f: "fst (insertStyleElement nested_runtime_head ''r{}'' True None) = Inr ssr_runtime"
    by (simp add: nested_runtime_head_def wrapper_node_def ssr_runtime_def eval_defs)
  have g: "childNodes (snd (insertStyleElement nested_runtime_head ''r{}'' True None)) = [wrapper_node]"
    by (simp add: nested_runtime_head_def wrapper_node_def ssr_runtime_def eval_defs)
  from a b c d e f g show ?thesis by simp
qed

subsection \<open>The text of a created node\<close>

lemma getExisting_origin:
  "fst (getExistingStyleElement r k) = Inr (Some e) \<Longrightarrow>
     e \<in> ran (the_style_map r) \<or> e \<in> set (descendants (childNodes r))"
  by (auto simp: getExisting_cases ran_def querySelector_def find_Some_iff
      split: option.splits sum.splits)

lemma created_text:
  assumes "insertStyleElement r css rt ext = (Inr s, r')"
    and "s \<notin> set (descendants (childNodes r))" and "s \<notin> ran (the_style_map r)"
  shows "textContent s = css"
proof (cases "style_key rt ext")
  case None
  from insert_uncached [OF None, of r css] assms(1) show ?thesis
    by (auto simp: new_style_def)
next
  case (Some k)
  from lookup_cases [of r k] show ?thesis
  proof (elim disjE exE)
    fix x assume "fst (getExistingStyleElement r k) = Inl x"
    from insert_throws [OF Some this, of css] assms(1) show ?thesis by simp
  next
    fix e assume e: "fst (getExistingStyleElement r k) = Inr (Some e)"
    from insert_known [OF Some e, of css] assms(1) have "e = s" by simp
    with getExisting_origin [OF e] assms(2,3) show ?thesis by simp
  next
    assume unknown: "fst (getExistingStyleElement r k) = Inr None"
    show ?thesis
    proof (cases rt)
      case True
      with Some have "k = ''amp-runtime''" by (simp add: style_key_def)
      with insert_runtime_new [of r css ext] unknown True assms(1) show ?thesis
        by (auto simp: new_style_def)
    next
      case nrt: False
      from runtime_lookup_cases [of r] show ?thesis
      proof (elim disjE exE)
        fix a assume "fst (getExistingStyleElement r ''amp-runtime'') = Inr (Some a)"
        from insert_extension_new [OF _ unknown this, of ext css] Some nrt assms(1) show ?thesis
          by (auto simp: new_style_def)
      next
        assume "fst (getExistingStyleElement r ''amp-runtime'') = Inr None"
        from insert_extension_fails [OF _ unknown this, of ext css] Some nrt assms(1) show ?thesis
          by simp
      qed
    qed
  qed
qed

lemma installStylesForDoc_text:
  assumes "installStylesForDoc ad cssText cb rt ext = (Inr s, ad', p)"
    and "s \<notin> set (descendants (childNodes (headNode ad)))"
    and "s \<notin> ran (the_style_map (headNode ad))"
  shows "textContent s = maybeTransform (headNode ad) cssText"
proof -
  from assms(1) obtain r' where
    "insertStyleElement (headNode ad) (maybeTransform (headNode ad) cssText) (or_false rt) (or_null ext) = (Inr s, r')"
    by (auto simp: installStylesForDoc_def Let_def split: prod.splits sum.splits)
  from created_text [OF this assms(2,3)] show ?thesis .
qed

lemma installStylesLegacy_text:
  assumes "installStylesLegacy doc cssText cb rt ext = (Inr s, doc', p)"
    and "doc_head doc = Some r"
    and "s \<notin> set (descendants (childNodes r))" and "s \<notin> ran (the_style_map r)"
  shows "textContent s = cssText"
proof -
  from assms(1,2) obtain r' where
    "insertStyleElement r cssText (or_false rt) (or_null ext) = (Inr s, r')"
    by (auto simp: installStylesLegacy_def split: prod.splits sum.splits)
  from created_text [OF this assms(3,4)] show ?thesis .
qed

text \<open>
  Claim C9. The ampdoc-based entry point passes the css text through the transformer of
  the root; the legacy entry point hands the text to \<open>insertStyleElement\<close> as given. On
  a head whose transformer puts \<open>.scope\<close> in front, the node created through
  \<open>installStylesForDoc\<close> holds the transformed text and the node created through
  \<open>installStylesLegacy\<close> holds the text untransformed.
\<close>

theorem legacy_install_skips_transformer:
  "maybeTransform scoping_head ''a{}'' = ''.scope a{}'' \<and>
   map_sum id textContent
     (fst (installStylesForDoc \<lparr>headNode = scoping_head, rootSheets = []\<rparr> ''a{}'' False None None)) =
     Inr ''.scope a{}'' \<and>
   map_sum id textContent
     (fst (installStylesLegacy \<lparr>doc_head = Some scoping_head, doc_styleSheets = []\<rparr> ''a{}'' False None None)) =
     Inr ''a{}''"
  by (simp add: scoping_head_def installCssTransformer_def maybeTransform_def empty_head_def
      installStylesForDoc_def installStylesLegacy_def or_false_def or_null_def eval_defs)

subsection \<open>The readiness check and the polling timer\<close>

lemma run_interval_cleared: "interval p = None \<Longrightarrow> run_interval sheets_at now n p = p"
  by (cases n) simp_all

lemma run_interval_waiting:
  assumes "interval p = Some (d, style)"
    and "\<forall>i<n. \<not> listed (sheets_at (now + d * Suc i)) style"
  shows "run_interval sheets_at now n p = p"
  using assms(2)
proof (induction n arbitrary: now)
  case 0
  then show ?case by simp
next
  case (Suc n)
  from Suc.prems have first: "\<not> listed (sheets_at (now + d)) style"
    by (metis mult.right_neutral One_nat_def zero_less_Suc)
  have later: "\<forall>i<n. \<not> listed (sheets_at (now + d + d * Suc i)) style"
  proof (intro allI impI)
    fix i assume "i < n"
    then have "Suc i < Suc n" by simp
    with Suc.prems have "\<not> listed (sheets_at (now + d * Suc (Suc i))) style" by blast
    then show "\<not> listed (sheets_at (now + d + d * Suc i)) style"
      by (simp add: add.assoc)
  qed
  from first assms(1) have "interval_tick (sheets_at (now + d)) p = p"
    by (simp add: interval_tick_def styleLoaded_iff_listed)
  with assms(1) Suc.IH [OF later] show ?case by simp
qed

lemma run_interval_fires:
  assumes "interval p = Some (d, style)"
    and "k < n"
    and "\<forall>i<k. \<not> listed (sheets_at (now + d * Suc i)) style"
    and "listed (sheets_at (now + d * Suc k)) style"
  shows "run_interval sheets_at now n p = \<lparr>cb_calls = cb_calls p @ [style], interval = None\<rparr>"
  using assms(2-4)
proof (induction k arbitrary: now n)
  case 0
  then obtain m where n: "n = Suc m" by (cases n) auto
  from 0 assms(1) have "interval_tick (sheets_at (now + d)) p = \<lparr>cb_calls = cb_calls p @ [style], interval = None\<rparr>"
    by (simp add: interval_tick_def styleLoaded_iff_listed)
  with assms(1) n show ?case
    by (simp add: run_interval_cleared)
next
  case (Suc k)
  then obtain m where n: "n = Suc m" and km: "k < m" by (cases n) auto
  from Suc.prems(2) have first: "\<not> listed (sheets_at (now + d)) style"
    by (metis mult.right_neutral One_nat_def zero_less_Suc)
  have later: "\<forall>i<k. \<not> listed (sheets_at (now + d + d * Suc i)) style"
  proof (intro allI impI)
    fix i assume "i < k"
    then have "Suc i < Suc k" by simp
    with Suc.prems(2) have "\<not> listed (sheets_at (now + d * Suc (Suc i))) style" by blast
    then show "\<not> listed (sheets_at (now + d + d * Suc i)) style"
      by (simp add: add.assoc)
  qed
  from Suc.prems(3) have hit: "listed (sheets_at (now + d + d * Suc k)) style"
    by (simp add: add.assoc)
  from first assms(1) have "interval_tick (sheets_at (now + d)) p = p"
    by (simp add: interval_tick_def styleLoaded_iff_listed)
  with assms(1) n Suc.IH [OF km later hit] show ?case by simp
qed

lemma entry_points_notify:
  assumes "installStylesForDoc ad cssText True rt ext = (res, ad', p) \<and> sheets = rootSheets ad \<or>
           installStylesLegacy doc cssText True rt ext = (res, doc', p) \<and> sheets = doc_styleSheets doc"
  shows "case res of
           Inl e \<Rightarrow> p = no_poller
         | Inr style \<Rightarrow> p = notify_when_loaded True sheets style"
  using assms
  by (auto simp: installStylesForDoc_def installStylesLegacy_def Let_def
      split: prod.splits sum.splits option.splits)

text \<open>
  Claim C4. Take an install call with a callback, through \<open>installStylesForDoc\<close> or
  through \<open>installStylesLegacy\<close>, and the style sheet list that the call reads. The call
  either raises, and then neither runs the callback nor creates a timer, or returns a
  style node, and then: if the list has an entry whose owner node is that node, the
  callback has run once with the node and there is no timer, so nothing runs later;
  otherwise the callback has not run and a timer with delay 4 polls for that node. While
  no firing of the timer finds an entry owned by the node, nothing changes, however many
  firings there are: the callback has not run and the timer is still live. When firing
  \<open>k\<close> is the first to find such an entry, the callback has run exactly once with the
  node and the timer is cleared after any number of firings beyond \<open>k\<close>. Whenever the
  callback has run, a firing before had found an entry owned by the node.
\<close>

theorem callback_fires_once_when_loaded:
  assumes "installStylesForDoc ad cssText True rt ext = (res, ad', p) \<and> sheets = rootSheets ad \<or>
           installStylesLegacy doc cssText True rt ext = (res, doc', p) \<and> sheets = doc_styleSheets doc"
  shows "case res of
           Inl e \<Rightarrow> cb_calls p = [] \<and> interval p = None
         | Inr style \<Rightarrow>
             (if listed sheets style
              then p = \<lparr>cb_calls = [style], interval = None\<rparr> \<and>
                   (\<forall>sheets_at now n. run_interval sheets_at now n p = p)
              else p = \<lparr>cb_calls = [], interval = Some (4, style)\<rparr> \<and>
                   (\<forall>sheets_at now n.
                      (\<forall>i<n. \<not> listed (sheets_at (now + 4 * Suc i)) style) \<longrightarrow>
                      run_interval sheets_at now n p = p) \<and>
                   (\<forall>sheets_at now n k.
                      k < n \<and> (\<forall>i<k. \<not> listed (sheets_at (now + 4 * Suc i)) style) \<and>
                      listed (sheets_at (now + 4 * Suc k)) style \<longrightarrow>
                      run_interval sheets_at now n p = \<lparr>cb_calls = [style], interval = None\<rparr>) \<and>
                   (\<forall>sheets_at now n.
                      cb_calls (run_interval sheets_at now n p) \<noteq> [] \<longrightarrow>
                      (\<exists>i<n. listed (sheets_at (now + 4 * Suc i)) style)))"
proof (cases res)
  case (Inl e)
  with entry_points_notify [OF assms] show ?thesis
    by (simp add: no_poller_def)
next
  case (Inr style)
  let ?p = "notify_when_loaded True sheets style"
  from Inr entry_points_notify [OF assms] have pp: "p = ?p" by simp
  show ?thesis
  proof (cases "listed sheets style")
    case True
    then have p: "?p = \<lparr>cb_calls = [style], interval = None\<rparr>"
      by (simp add: notify_when_loaded_listed)
    then have "run_interval sheets_at now n ?p = ?p" for sheets_at now n
      by (simp add: run_interval_cleared)
    with p True Inr pp show ?thesis by simp
  next
    case False
    then have p: "?p = \<lparr>cb_calls = [], interval = Some (4, style)\<rparr>"
      by (simp add: notify_when_loaded_listed)
    have i: "interval ?p = Some (4, style)" "cb_calls ?p = []"
      by (simp_all add: p)
    have w: "run_interval sheets_at now n ?p = ?p"
      if "\<forall>i<n. \<not> listed (sheets_at (now + 4 * Suc i)) style" for sheets_at now n
      using run_interval_waiting [OF i(1) that] .
    have f: "run_interval sheets_at now n ?p = \<lparr>cb_calls = [style], interval = None\<rparr>"
      if "k < n" "\<forall>i<k. \<not> listed (sheets_at (now + 4 * Suc i)) style"
        "listed (sheets_at (now + 4 * Suc k)) style" for sheets_at now n k
      using run_interval_fires [OF i(1) that] i(2) by simp
    have b: "\<exists>i<n. listed (sheets_at (now + 4 * Suc i)) style"
      if "cb_calls (run_interval sheets_at now n ?p) \<noteq> []" for sheets_at now n
    proof (rule ccontr)
      assume "\<not> (\<exists>i<n. listed (sheets_at (now + 4 * Suc i)) style)"
      then have "\<forall>i<n. \<not> listed (sheets_at (now + 4 * Suc i)) style" by blast
      from w [OF this] that i(2) show False by simp
    qed
    have pq: "p = \<lparr>cb_calls = [], interval = Some (4, style)\<rparr>"
      using pp p by simp
    have e: "(if listed sheets style then A else B) = B" for A B :: bool
      using False by simp
    show ?thesis
      unfolding Inr sum.case e pq
      using w [unfolded p] f [unfolded p] b [unfolded p] by blast
  qed
qed

theorem callback_fires_once_witness:
  "fst (installStylesForDoc \<lparr>headNode = empty_head, rootSheets = sheets_from_10 0\<rparr> ''r{}'' True (Some True) None) =
     Inr (Element 0 ''style'' [(''amp-runtime'', [])] ''r{}'' []) \<and>
   \<not> listed (sheets_from_10 8) (Element 0 ''style'' [(''amp-runtime'', [])] ''r{}'' []) \<and>
   listed (sheets_from_10 12) (Element 0 ''style'' [(''amp-runtime'', [])] ''r{}'' []) \<and>
   map nid (cb_calls (run_interval sheets_from_10 0 2
     (snd (snd (installStylesForDoc \<lparr>headNode = empty_head, rootSheets = sheets_from_10 0\<rparr> ''r{}'' True (Some True) None))))) = [] \<and>
   map nid (cb_calls (run_interval sheets_from_10 0 7
     (snd (snd (installStylesForDoc \<lparr>headNode = empty_head, rootSheets = sheets_from_10 0\<rparr> ''r{}'' True (Some True) None))))) = [0] \<and>
   interval (run_interval sheets_from_10 0 7
     (snd (snd (installStylesForDoc \<lparr>headNode = empty_head, rootSheets = sheets_from_10 0\<rparr> ''r{}'' True (Some True) None)))) = None \<and>
   snd (snd (installStylesLegacy \<lparr>doc_head = Some empty_head, doc_styleSheets = sheets_from_10 0\<rparr> ''r{}'' True (Some True) None)) =
     \<lparr>cb_calls = [], interval = Some (4, Element 0 ''style'' [(''amp-runtime'', [])] ''r{}'' [])\<rparr> \<and>
   run_interval sheets_from_10 0 7
     (snd (snd (installStylesLegacy \<lparr>doc_head = Some empty_head, doc_styleSheets = sheets_from_10 0\<rparr> ''r{}'' True (Some True) None))) =
     \<lparr>cb_calls = [Element 0 ''style'' [(''amp-runtime'', [])] ''r{}'' []], interval = None\<rparr> \<and>
   snd (snd (installStylesLegacy \<lparr>doc_head = Some empty_head, doc_styleSheets = sheets_from_10 12\<rparr> ''r{}'' True (Some True) None)) =
     \<lparr>cb_calls = [Element 0 ''style'' [(''amp-runtime'', [])] ''r{}'' []], interval = None\<rparr>"
proof -
  let ?s = "Element 0 ''style'' [(''amp-runtime'', [])] ''r{}'' []"
  let ?ad = "\<lparr>headNode = empty_head, rootSheets = sheets_from_10 0\<rparr>"
  let ?doc = "\<lparr>doc_head = Some empty_head, doc_styleSheets = sheets_from_10 0\<rparr>"
  let ?doc12 = "\<lparr>doc_head = Some empty_head, doc_styleSheets = sheets_from_10 12\<rparr>"
  have a: "fst (installStylesForDoc ?ad ''r{}'' True (Some True) None) = Inr ?s"
    by (simp add: installStylesForDoc_def maybeTransform_def or_false_def or_null_def
        empty_head_def eval_defs)
  have b: "fst (installStylesLegacy ?doc ''r{}'' True (Some True) None) = Inr ?s"
    "fst (installStylesLegacy ?doc12 ''r{}'' True (Some True) None) = Inr ?s"
    by (simp_all add: installStylesLegacy_def or_false_def or_null_def empty_head_def eval_defs)
  have l: "\<not> listed (sheets_from_10 0) ?s" "\<not> listed (sheets_from_10 4) ?s"
    "\<not> listed (sheets_from_10 8) ?s" "listed (sheets_from_10 12) ?s"
    by (simp_all add: listed_def sheets_from_10_def)
  have ha: "installStylesForDoc ?ad ''r{}'' True (Some True) None =
      (fst (installStylesForDoc ?ad ''r{}'' True (Some True) None),
       fst (snd (installStylesForDoc ?ad ''r{}'' True (Some True) None)),
       snd (snd (installStylesForDoc ?ad ''r{}'' True (Some True) None))) \<and>
      sheets_from_10 0 = rootSheets ?ad"
    by simp
  have hb: "installStylesLegacy ?doc ''r{}'' True (Some True) None =
      (fst (installStylesLegacy ?doc ''r{}'' True (Some True) None),
       fst (snd (installStylesLegacy ?doc ''r{}'' True (Some True) None)),
       snd (snd (installStylesLegacy ?doc ''r{}'' True (Some True) None))) \<and>
      sheets_from_10 0 = doc_styleSheets ?doc"
    by simp
  have hc: "installStylesLegacy ?doc12 ''r{}'' True (Some True) None =
      (fst (installStylesLegacy ?doc12 ''r{}'' True (Some True) None),
       fst (snd (installStylesLegacy ?doc12 ''r{}'' True (Some True) None)),
       snd (snd (installStylesLegacy ?doc12 ''r{}'' True (Some True) None))) \<and>
      sheets_from_10 12 = doc_styleSheets ?doc12"
    by simp
  have t: "\<forall>i<2. \<not> listed (sheets_from_10 (0 + 4 * Suc i)) ?s"
    by (simp add: listed_def sheets_from_10_def)
  have t2: "(2::nat) < 7 \<and> (\<forall>i<2. \<not> listed (sheets_from_10 (0 + 4 * Suc i)) ?s) \<and>
      listed (sheets_from_10 (0 + 4 * Suc 2)) ?s"
    by (simp add: listed_def sheets_from_10_def)
  note A = callback_fires_once_when_loaded [OF disjI1 [OF ha], unfolded a sum.case]
  note B = callback_fires_once_when_loaded [OF disjI2 [OF hb], unfolded b sum.case]
  note C = callback_fires_once_when_loaded [OF disjI2 [OF hc], unfolded b sum.case]
  note A' = A [unfolded if_not_P [OF l(1)]]
  note B' = B [unfolded if_not_P [OF l(1)]]
  note A1 = A' [THEN conjunct1]
  note A2 = A' [THEN conjunct2, THEN conjunct1, rule_format]
  note A3 = A' [THEN conjunct2, THEN conjunct2, THEN conjunct1, rule_format]
  note B1 = B' [THEN conjunct1]
  note B3 = B' [THEN conjunct2, THEN conjunct2, THEN conjunct1, rule_format]
  note C1 = C [unfolded if_P [OF l(4)], THEN conjunct1]
  from A2 [of 2 sheets_from_10 0] t A1
  have r2: "cb_calls (run_interval sheets_from_10 0 2
      (snd (snd (installStylesForDoc ?ad ''r{}'' True (Some True) None)))) = []"
    by simp
  from A3 [of 2 7 sheets_from_10 0] t2
  have r7: "run_interval sheets_from_10 0 7
      (snd (snd (installStylesForDoc ?ad ''r{}'' True (Some True) None))) =
      \<lparr>cb_calls = [?s], interval = None\<rparr>" by blast
  from B3 [of 2 7 sheets_from_10 0] t2
  have q7: "run_interval sheets_from_10 0 7
      (snd (snd (installStylesLegacy ?doc ''r{}'' True (Some True) None))) =
      \<lparr>cb_calls = [?s], interval = None\<rparr>" by blast
  from a l(3,4) r2 r7 B1 q7 C1 show ?thesis
    by simp
qed

section \<open>Properties of the visibility flow\<close>

subsection \<open>The transition\<close>

lemma set_visible_eq:
  "set_visible e s =
     (case body s of
        None \<Rightarrow> (Some (AssertionError ''Element expected''), s\<lparr>sentinel := True\<rparr>)
      | Some st \<Rightarrow>
          (None, s\<lparr>sentinel := True, body := Some (setStyles st visible_styles),
                   effects := effects s @ SetStyles visible_styles # render_log e\<rparr>))"
  by (simp add: set_visible_def renderStartedNoInline_def log_effect_def render_log_def
      split: option.splits)

lemma tick_mbv_eq: "tick_mbv e s = s\<lparr>effects := effects s @ perf_log e\<rparr>"
  by (simp add: tick_mbv_def log_effect_def perf_log_def split: option.splits)

lemma setStyles_visible:
  "setStyles st visible_styles =
     st(''opacity'' \<mapsto> ''1'', ''visibility'' \<mapsto> ''visible'', ''animation'' \<mapsto> ''none'')"
  by (simp add: setStyles_def visible_styles_def)

lemma transitions_append:
  "transitions (s\<lparr>effects := effects s @ xs\<rparr>) =
     transitions s + length (filter (\<lambda>x. x = SetStyles visible_styles) xs)"
  by (simp add: transitions_def)

lemma renders_append:
  "renders (s\<lparr>effects := effects s @ xs\<rparr>) = renders s + length (filter (\<lambda>x. x = RenderStarted) xs)"
  by (simp add: renders_def)

lemma render_log_counts [simp]:
  "length (filter (\<lambda>x. x = RenderStarted) (render_log e)) \<le> 1"
  "filter (\<lambda>x. x = SetStyles visible_styles) (render_log e) = []"
  by (simp_all add: render_log_def split: option.splits)

lemma perf_log_counts [simp]:
  "filter (\<lambda>x. x = RenderStarted) (perf_log e) = []"
  "filter (\<lambda>x. x = SetStyles visible_styles) (perf_log e) = []"
  by (simp_all add: perf_log_def split: option.splits)

lemma counts_other_fields [simp]:
  "transitions (s\<lparr>sentinel := b\<rparr>) = transitions s"
  "transitions (s\<lparr>body := x\<rparr>) = transitions s"
  "transitions (s\<lparr>body_waiters := ws\<rparr>) = transitions s"
  "transitions (s\<lparr>services_waits := n\<rparr>) = transitions s"
  "renders (s\<lparr>sentinel := b\<rparr>) = renders s"
  "renders (s\<lparr>body := x\<rparr>) = renders s"
  "renders (s\<lparr>body_waiters := ws\<rparr>) = renders s"
  "renders (s\<lparr>services_waits := n\<rparr>) = renders s"
  by (simp_all add: transitions_def renders_def)

lemma counts_effects [simp]:
  "transitions (s\<lparr>effects := xs\<rparr>) = length (filter (\<lambda>x. x = SetStyles visible_styles) xs)"
  "renders (s\<lparr>effects := xs\<rparr>) = length (filter (\<lambda>x. x = RenderStarted) xs)"
  by (simp_all add: transitions_def renders_def)

lemma set_visible_inv:
  assumes "transitions s = 0" and "renders s = 0" and "services_waits s = 0"
  shows "vis_inv (snd (set_visible e s))" and "sentinel (snd (set_visible e s))"
  using assms render_log_counts(1) [of e]
  by (auto simp: set_visible_eq vis_inv_def transitions_def renders_def split: option.splits)

lemma vis_inv_unset: "vis_inv s \<Longrightarrow> \<not> sentinel s \<Longrightarrow> transitions s = 0 \<and> renders s = 0 \<and> services_waits s = 0"
  by (auto simp: vis_inv_def)

lemma on_body_inv: "vis_inv s \<Longrightarrow> vis_inv (snd (on_body e w s))"
proof (cases "sentinel s")
  case True
  assume "vis_inv s"
  with True show ?thesis by (simp add: on_body_def)
next
  case False
  assume "vis_inv s"
  from vis_inv_unset [OF this False] have z: "transitions s = 0" "renders s = 0" "services_waits s = 0"
    by simp_all
  show ?thesis
  proof (cases w)
    case True
    with False z show ?thesis
      by (auto simp: on_body_def vis_inv_def Let_def split: option.splits)
  next
    case nw: False
    have "vis_inv (snd (set_visible e (s\<lparr>sentinel := True\<rparr>)))"
      by (rule set_visible_inv) (simp_all add: z)
    with False nw show ?thesis by (simp add: on_body_def Let_def)
  qed
qed

lemma on_body_sentinel: "sentinel (snd (on_body e w s))"
  by (auto simp: on_body_def set_visible_eq Let_def split: option.splits)

lemma on_body_zero:
  "\<not> sentinel s \<Longrightarrow> transitions s = 0 \<Longrightarrow> renders s = 0 \<Longrightarrow> services_waits s = 0 \<Longrightarrow>
     fst (on_body e w s) \<noteq> None \<Longrightarrow>
     transitions (snd (on_body e w s)) = 0 \<and> renders (snd (on_body e w s)) = 0 \<and>
     services_waits (snd (on_body e w s)) = 0"
  by (auto simp: on_body_def set_visible_eq Let_def split: option.splits if_splits)

lemma makeBodyVisible_inv: "vis_inv s \<Longrightarrow> vis_inv (snd (makeBodyVisible e w s))"
proof -
  assume inv: "vis_inv s"
  show ?thesis
  proof (cases "\<not> defaultView s \<or> sentinel s")
    case True
    with inv show ?thesis by (auto simp: makeBodyVisible_def)
  next
    case False
    then have v: "defaultView s" "\<not> sentinel s" by simp_all
    from vis_inv_unset [OF inv v(2)] have z: "transitions s = 0" "renders s = 0" "services_waits s = 0"
      by simp_all
    show ?thesis
    proof (cases "waitForBody_throws e")
      case (Some x)
      have "vis_inv (snd (set_visible e s))" by (rule set_visible_inv) (simp_all add: z)
      with v Some show ?thesis
        by (auto simp: makeBodyVisible_def waitForBody_def log_effect_def vis_inv_def
            transitions_def renders_def split: prod.splits option.splits)
    next
      case None
      show ?thesis
      proof (cases "body s")
        case nb: None
        with v None inv show ?thesis
          by (simp add: makeBodyVisible_def waitForBody_def vis_inv_def)
      next
        case (Some st)
        obtain res s1 where ob: "on_body e w s = (res, s1)" by (cases "on_body e w s")
        show ?thesis
        proof (cases res)
          case ok: None
          with v None Some ob on_body_inv [OF inv, of e w] show ?thesis
            by (simp add: makeBodyVisible_def waitForBody_def)
        next
          case (Some x)
          from on_body_zero [OF v(2) z, of e w] Some ob
          have z1: "transitions s1 = 0" "renders s1 = 0" "services_waits s1 = 0"
            by simp_all
          have "vis_inv (snd (set_visible e s1))"
            by (rule set_visible_inv) (simp_all add: z1)
          with v None \<open>body s = Some st\<close> Some ob show ?thesis
            by (auto simp: makeBodyVisible_def waitForBody_def log_effect_def vis_inv_def
                transitions_def renders_def split: prod.splits option.splits)
        qed
      qed
    qed
  qed
qed

subsection \<open>Every event keeps the invariant\<close>

lemma bodyAlwaysVisible_inv: "vis_inv s \<Longrightarrow> vis_inv (bodyAlwaysVisible s)"
  by (simp add: vis_inv_def bodyAlwaysVisible_def)

lemma body_parsed_inv: "vis_inv s \<Longrightarrow> vis_inv (body_parsed st s)"
  by (simp add: vis_inv_def body_parsed_def split: option.splits)

lemma vis_inv_waiters: "vis_inv s \<Longrightarrow> vis_inv (s\<lparr>body_waiters := ws\<rparr>)"
  by (simp add: vis_inv_def)

lemma body_reported_inv: "vis_inv s \<Longrightarrow> vis_inv (snd (body_reported e s))"
  using on_body_inv [OF vis_inv_waiters]
  by (simp add: body_reported_def split: option.splits list.splits)

lemma services_settled_inv:
  assumes "vis_inv s"
  shows "vis_inv (snd (services_settled e outcome s))"
proof (cases "services_waits s = 0")
  case True
  with assms show ?thesis by (simp add: services_settled_def)
next
  case False
  with assms have f: "services_waits s = 1" "transitions s = 0" "renders s = 0" "sentinel s"
    by (auto simp: vis_inv_def)
  then show ?thesis
    using render_log_counts(1) [of e]
    by (auto simp: services_settled_def set_visible_eq tick_mbv_eq log_effect_def vis_inv_def
        transitions_def renders_def Let_def split: settled.splits option.splits)
qed

lemma step_inv: "vis_inv s \<Longrightarrow> vis_inv (step ev s)"
  by (cases ev)
     (simp_all add: makeBodyVisible_inv bodyAlwaysVisible_inv body_parsed_inv
        body_reported_inv services_settled_inv)

lemma run_inv: "vis_inv s \<Longrightarrow> vis_inv (run evs s)"
  by (induction evs arbitrary: s) (simp_all add: step_inv)

lemma untouched_window_vis_inv:
  "\<not> sentinel s \<Longrightarrow> effects s = [] \<Longrightarrow> services_waits s = 0 \<Longrightarrow> vis_inv s"
  by (simp add: vis_inv_def transitions_def renders_def)

lemma vis_inv_once: "vis_inv s \<Longrightarrow> transitions s \<le> 1 \<and> renders s \<le> 1"
  by (auto simp: vis_inv_def)

subsection \<open>Calls after the sentinel is set\<close>

lemma makeBodyVisible_sentinel:
  "sentinel s \<Longrightarrow> snd (makeBodyVisible e w s) = s"
  by (simp add: makeBodyVisible_def)

lemma makeBodyVisible_sentinel_returns:
  "sentinel s \<Longrightarrow> defaultView s \<Longrightarrow> makeBodyVisible e w s = (None, s)"
  by (simp add: makeBodyVisible_def)

lemma makeBodyVisible_defaultView [simp]:
  "defaultView (snd (makeBodyVisible e w s)) = defaultView s"
  by (auto simp: makeBodyVisible_def waitForBody_def on_body_def set_visible_eq log_effect_def Let_def
      split: option.splits prod.splits)

lemma first_call_outcome:
  "defaultView s \<Longrightarrow>
     sentinel (snd (makeBodyVisible e w s)) \<or>
     (body (snd (makeBodyVisible e w s)) = None \<and> \<not> sentinel (snd (makeBodyVisible e w s)) \<and>
      body s = None)"
  by (auto simp: makeBodyVisible_def waitForBody_def on_body_def set_visible_eq log_effect_def Let_def
      split: option.splits prod.splits)

lemma first_call_with_body:
  "defaultView s \<Longrightarrow> body s \<noteq> None \<Longrightarrow> sentinel (snd (makeBodyVisible e w s))"
  using first_call_outcome [of s e w] by auto

lemma call_without_body:
  "body s = None \<Longrightarrow>
     body (snd (makeBodyVisible e w s)) = None \<and> effects (snd (makeBodyVisible e w s)) = effects s"
  by (auto simp: makeBodyVisible_def waitForBody_def on_body_def set_visible_eq log_effect_def Let_def
      split: option.splits prod.splits)

lemma second_call_effect_free:
  "body (snd (makeBodyVisible e2 w2 (snd (makeBodyVisible e1 w1 s)))) = body (snd (makeBodyVisible e1 w1 s)) \<and>
   effects (snd (makeBodyVisible e2 w2 (snd (makeBodyVisible e1 w1 s)))) = effects (snd (makeBodyVisible e1 w1 s))"
proof (cases "defaultView s")
  case False
  then show ?thesis by (simp add: makeBodyVisible_def)
next
  case True
  from first_call_outcome [OF True, of e1 w1] show ?thesis
  proof
    assume "sentinel (snd (makeBodyVisible e1 w1 s))"
    then show ?thesis by (simp add: makeBodyVisible_sentinel)
  next
    assume "body (snd (makeBodyVisible e1 w1 s)) = None \<and> \<not> sentinel (snd (makeBodyVisible e1 w1 s)) \<and> body s = None"
    then show ?thesis using call_without_body [of "snd (makeBodyVisible e1 w1 s)" e2 w2] by simp
  qed
qed


text \<open>The definitions that evaluate the visibility flow on a concrete page.\<close>

lemmas vis_defs =
  makeBodyVisible_def waitForBody_def on_body_def set_visible_eq services_settled_def
  tick_mbv_eq log_effect_def render_log_def perf_log_def bodyAlwaysVisible_def
  body_parsed_def body_reported_def Let_def


subsection \<open>Waiting for services\<close>

lemma on_body_waits:
  assumes "\<not> sentinel s" and "waitForServices_throws e = None"
  shows "on_body e True s = (None, s\<lparr>sentinel := True, services_waits := Suc (services_waits s)\<rparr>)"
  using assms by (simp add: on_body_def)

lemma settle_rejected:
  assumes "body s = Some st" and "services_waits s = Suc n"
  shows "services_settled e (Rejected reason) s =
           (None, s\<lparr>sentinel := True, body := Some (setStyles st visible_styles),
                    services_waits := n,
                    effects := effects s @ RethrowAsync reason # SetStyles visible_styles #
                               render_log e @ perf_log e\<rparr>)"
  using assms by (simp add: services_settled_def set_visible_eq tick_mbv_eq log_effect_def Let_def)

lemma settle_resolved:
  assumes "body s = Some st" and "services_waits s = Suc n"
  shows "services_settled e (Resolved svcs) s =
           (if svcs = [] then
              (None, s\<lparr>sentinel := True, body := Some (setStyles st visible_styles),
                       services_waits := n,
                       effects := effects s @ SetStyles visible_styles # render_log e @ perf_log e\<rparr>)
            else case resources_lookup e of
                   None \<Rightarrow>
                     (None, s\<lparr>sentinel := True, body := Some (setStyles st visible_styles),
                       services_waits := n,
                       effects := effects s @ SetStyles visible_styles # render_log e @
                                  SchedulePass 1 True # perf_log e\<rparr>)
                 | Some x \<Rightarrow>
                     (Some x, s\<lparr>sentinel := True, body := Some (setStyles st visible_styles),
                       services_waits := n,
                       effects := effects s @ SetStyles visible_styles # render_log e\<rparr>))"
  using assms
  by (simp add: services_settled_def set_visible_eq tick_mbv_eq log_effect_def Let_def
      split: option.splits)

text \<open>
  Claim C10. When the callback of \<open>waitForBody\<close> runs for a call with
  \<open>opt_waitForServices\<close> true, on a window whose sentinel is not set and with
  \<open>waitForServices\<close> returning its promise, it sets the sentinel and starts to wait:
  the body styles and the log of collaborator calls are as before. This is what
  \<open>makeBodyVisible\<close> itself does when the body is there, and what the host does when it
  reports the body to a callback that waited. While the continuation waits, every
  further \<open>makeBodyVisible\<close> call on the window, whatever its arguments and whatever
  the collaborators would do, returns at once and changes nothing. When the promise
  settles, resolved or rejected, the waiting continuation sets the body styles, once.
\<close>

theorem sentinel_set_before_services_wait:
  assumes "\<not> sentinel s" and "waitForServices_throws e = None"
  shows "on_body e True s = (None, s\<lparr>sentinel := True, services_waits := Suc (services_waits s)\<rparr>) \<and>
         (defaultView s \<and> body s \<noteq> None \<and> waitForBody_throws e = None \<longrightarrow>
            makeBodyVisible e True s = on_body e True s) \<and>
         (body s \<noteq> None \<longrightarrow>
            body_reported e (s\<lparr>body_waiters := True # body_waiters s\<rparr>) = on_body e True s) \<and>
         (\<forall>e' w'. defaultView s \<longrightarrow>
            makeBodyVisible e' w' (snd (on_body e True s)) = (None, snd (on_body e True s))) \<and>
         (\<forall>e' outcome st. body s = Some st \<longrightarrow>
            body (snd (services_settled e' outcome (snd (on_body e True s)))) =
              Some (setStyles st visible_styles) \<and>
            transitions (snd (services_settled e' outcome (snd (on_body e True s)))) =
              Suc (transitions s))"
proof -
  let ?s1 = "s\<lparr>sentinel := True, services_waits := Suc (services_waits s)\<rparr>"
  have ob: "on_body e True s = (None, ?s1)"
    using assms by (rule on_body_waits)
  have direct: "makeBodyVisible e True s = on_body e True s"
    if "defaultView s \<and> body s \<noteq> None \<and> waitForBody_throws e = None"
    using that assms ob by (auto simp: makeBodyVisible_def waitForBody_def)
  have reported: "body_reported e (s\<lparr>body_waiters := True # body_waiters s\<rparr>) = on_body e True s"
    if "body s \<noteq> None"
    using that by (auto simp: body_reported_def)
  have later: "makeBodyVisible e' w' ?s1 = (None, ?s1)" if "defaultView s" for e' w'
    using that by (simp add: makeBodyVisible_def)
  have settle: "body (snd (services_settled e' outcome ?s1)) = Some (setStyles st visible_styles) \<and>
      transitions (snd (services_settled e' outcome ?s1)) = Suc (transitions s)"
    if "body s = Some st" for e' outcome st
  proof (cases outcome)
    case (Resolved svcs)
    with that settle_resolved [of ?s1 st "services_waits s" e' svcs] show ?thesis
      by (simp add: transitions_def split: option.splits)
  next
    case (Rejected reason)
    with that settle_rejected [of ?s1 st "services_waits s" e' reason] show ?thesis
      by (simp add: transitions_def)
  qed
  show ?thesis
    unfolding ob snd_conv using direct [unfolded ob] reported [unfolded ob] later settle by blast
qed

theorem sentinel_set_before_services_wait_witness:
  "\<not> sentinel hidden_page \<and> waitForServices_throws quiet_env = None \<and>
   makeBodyVisible quiet_env True hidden_page =
     (None, hidden_page\<lparr>sentinel := True, services_waits := 1\<rparr>) \<and>
   makeBodyVisible failing_wait_env False (hidden_page\<lparr>sentinel := True, services_waits := 1\<rparr>) =
     (None, hidden_page\<lparr>sentinel := True, services_waits := 1\<rparr>) \<and>
   effects (snd (services_settled quiet_env (Resolved [])
      (hidden_page\<lparr>sentinel := True, services_waits := 1\<rparr>))) =
     [SetStyles visible_styles, RenderStarted, PerfTick ''mbv'', PerfFlush]"
proof -
  have h1: "\<not> sentinel hidden_page" by (simp add: hidden_page_def)
  have h2: "waitForServices_throws quiet_env = None" by (simp add: quiet_env_def)
  have ob: "snd (on_body quiet_env True hidden_page) = hidden_page\<lparr>sentinel := True, services_waits := 1\<rparr>"
    by (simp add: on_body_def hidden_page_def quiet_env_def)
  have v: "defaultView hidden_page \<and> body hidden_page \<noteq> None \<and> waitForBody_throws quiet_env = None"
    by (simp add: hidden_page_def quiet_env_def)
  from sentinel_set_before_services_wait [OF h1 h2] v
  have a: "makeBodyVisible quiet_env True hidden_page = on_body quiet_env True hidden_page"
    and b: "makeBodyVisible failing_wait_env False (snd (on_body quiet_env True hidden_page)) =
        (None, snd (on_body quiet_env True hidden_page))"
    by blast+
  have c: "effects (snd (services_settled quiet_env (Resolved [])
      (hidden_page\<lparr>sentinel := True, services_waits := 1\<rparr>))) =
     [SetStyles visible_styles, RenderStarted, PerfTick ''mbv'', PerfFlush]"
    by (simp add: hidden_page_def quiet_env_def vis_defs)
  from a b c h1 h2 show ?thesis
    unfolding ob by (simp add: on_body_def hidden_page_def quiet_env_def)
qed

text \<open>
  Claim C6. Take a window whose sentinel is not set, a document that has its body, and
  the callback of a call \<open>makeBodyVisible(doc, true)\<close> with \<open>waitForServices\<close> returning
  its promise: the callback runs inside the call when the document has its window and
  \<open>waitForBody\<close> does not throw, or is run by the host when it reports the body. The
  callback throws nothing and leaves the continuation waiting. If the promise is then
  rejected, the reason is handed to \<open>rethrowAsync\<close>, the body gets opacity 1, visibility
  visible and animation none, rendering is reported as started and the timing mark is
  made (each as far as its service is found), and no relayout pass is scheduled; the
  continuation throws nothing. If the promise resolves, the same transition runs, and
  the relayout pass \<open>schedulePass(1, true)\<close> is requested exactly when the list of
  services is not empty (the request throws if the resources service is not found).
\<close>

theorem rejected_services_still_visible:
  assumes "\<not> sentinel s" and "body s = Some st" and "waitForServices_throws e = None"
  shows "(defaultView s \<and> waitForBody_throws e = None \<longrightarrow>
            makeBodyVisible e True s = on_body e True s) \<and>
         body_reported e (s\<lparr>body_waiters := True # body_waiters s\<rparr>) = on_body e True s \<and>
         fst (on_body e True s) = None \<and>
         services_settled e' (Rejected reason) (snd (on_body e True s)) =
           (None, s\<lparr>sentinel := True, body := Some (setStyles st visible_styles),
                    effects := effects s @ RethrowAsync reason # SetStyles visible_styles #
                               render_log e' @ perf_log e'\<rparr>) \<and>
         setStyles st visible_styles =
           st(''opacity'' \<mapsto> ''1'', ''visibility'' \<mapsto> ''visible'', ''animation'' \<mapsto> ''none'') \<and>
         SchedulePass 1 True \<notin> set (RethrowAsync reason # SetStyles visible_styles # render_log e' @ perf_log e') \<and>
         effects (snd (services_settled e' (Resolved svcs) (snd (on_body e True s)))) =
           effects s @ SetStyles visible_styles # render_log e' @
             (if svcs = [] then perf_log e'
              else case resources_lookup e' of None \<Rightarrow> SchedulePass 1 True # perf_log e' | Some x \<Rightarrow> [])"
proof -
  let ?s1 = "s\<lparr>sentinel := True, services_waits := Suc (services_waits s)\<rparr>"
  have ob: "on_body e True s = (None, ?s1)"
    using assms(1,3) by (rule on_body_waits)
  have direct: "makeBodyVisible e True s = (None, ?s1)"
    if "defaultView s \<and> waitForBody_throws e = None"
    using that assms(1,2) ob by (simp add: makeBodyVisible_def waitForBody_def)
  have reported: "body_reported e (s\<lparr>body_waiters := True # body_waiters s\<rparr>) = (None, ?s1)"
    using assms(2) ob by (simp add: body_reported_def)
  have b1: "body ?s1 = Some st" "services_waits ?s1 = Suc (services_waits s)"
    using assms(2) by simp_all
  have rej: "services_settled e' (Rejected reason) ?s1 =
           (None, s\<lparr>sentinel := True, body := Some (setStyles st visible_styles),
                    effects := effects s @ RethrowAsync reason # SetStyles visible_styles #
                               render_log e' @ perf_log e'\<rparr>)"
    using settle_rejected [OF b1, of e' reason] by simp
  have res: "effects (snd (services_settled e' (Resolved svcs) ?s1)) =
           effects s @ SetStyles visible_styles # render_log e' @
             (if svcs = [] then perf_log e'
              else case resources_lookup e' of None \<Rightarrow> SchedulePass 1 True # perf_log e' | Some x \<Rightarrow> [])"
    using settle_resolved [OF b1, of e' svcs] by (simp split: option.splits)
  have no: "SchedulePass 1 True \<notin> set (RethrowAsync reason # SetStyles visible_styles # render_log e' @ perf_log e')"
    by (simp add: render_log_def perf_log_def split: option.splits)
  show ?thesis
    unfolding ob fst_conv snd_conv
    using direct reported rej res no setStyles_visible [of st] by simp
qed

theorem rejected_services_witness:
  "\<not> sentinel hidden_page \<and> body hidden_page = Some Map.empty \<and>
   waitForServices_throws quiet_env = None \<and>
   makeBodyVisible quiet_env True hidden_page = on_body quiet_env True hidden_page \<and>
   services_settled quiet_env (Rejected (HostError ''timeout''))
       (snd (makeBodyVisible quiet_env True hidden_page)) =
     (None, hidden_page\<lparr>sentinel := True,
        body := Some [''opacity'' \<mapsto> ''1'', ''visibility'' \<mapsto> ''visible'', ''animation'' \<mapsto> ''none''],
        effects := [RethrowAsync (HostError ''timeout''), SetStyles visible_styles, RenderStarted,
                    PerfTick ''mbv'', PerfFlush]\<rparr>)"
proof -
  have h: "\<not> sentinel hidden_page" "body hidden_page = Some Map.empty"
    "waitForServices_throws quiet_env = None"
    by (simp_all add: hidden_page_def quiet_env_def)
  have v: "defaultView hidden_page \<and> waitForBody_throws quiet_env = None"
    by (simp add: hidden_page_def quiet_env_def)
  from rejected_services_still_visible [OF h, of quiet_env "HostError ''timeout''" "[]"] h v
  show ?thesis
    by (simp add: hidden_page_def quiet_env_def render_log_def perf_log_def)
qed




end
